theory Spec2Isabelle
  imports Main
begin

section \<open>Memory, and the C library calls of mendeleyBibFix.c\<close>

text \<open>
  A buffer is the list of bytes that can be read from its first address on: the allocated
  block, followed by whatever readable bytes lie behind it.  An access at an index that is
  not in the list is a \<open>Fault\<close>: the C program has left its memory there.
\<close>

abbreviation NUL :: char where "NUL \<equiv> CHR 0x00"
abbreviation NL :: char where "NL \<equiv> CHR 0x0A"
abbreviation BSL :: char where "BSL \<equiv> CHR 0x5C"

datatype 'a result = Fault | Ok 'a

definition rd :: "char list \<Rightarrow> nat \<Rightarrow> char result" where
  "rd m i = (if i < length m then Ok (m ! i) else Fault)"

text \<open>
  \<open>unsigned long\<close> subtraction wraps around.  The differences the program computes
  are formed over the integers and reduced once, which gives the same value as reducing
  after every operation.  (An LP64 platform: 64 bits.)
\<close>

definition ULONG_RANGE :: int where
  "ULONG_RANGE = 18446744073709551616"

definition ulong :: "int \<Rightarrow> nat" where
  "ulong x = nat (x mod ULONG_RANGE)"

text \<open>The C string that starts at the first byte of a list: the bytes before the first NUL.\<close>

definition cstring :: "char list \<Rightarrow> string" where
  "cstring m = takeWhile (\<lambda>c. c \<noteq> NUL) m"

text \<open>
  \<open>strncmp0 m i lit\<close> is the test \<^verbatim>\<open>!strncmp(&m[i], lit, n)\<close> for a literal \<open>lit\<close> of
  \<open>n\<close> characters, none of them NUL (every call of the program has this shape).  The
  comparison runs byte by byte and stops at the first difference.
\<close>

fun strncmp0 :: "char list \<Rightarrow> nat \<Rightarrow> string \<Rightarrow> bool result" where
  "strncmp0 m i [] = Ok True"
| "strncmp0 m i (c # cs) =
     (case rd m i of
        Fault \<Rightarrow> Fault
      | Ok x \<Rightarrow> if x = c then strncmp0 m (Suc i) cs else Ok False)"

text \<open>\<^verbatim>\<open>memmove(&m[dst], &m[src], n)\<close>: the \<open>n\<close> bytes are read before any is written.\<close>

definition memmove :: "char list \<Rightarrow> nat \<Rightarrow> nat \<Rightarrow> nat \<Rightarrow> char list result" where
  "memmove m dst src n =
     (if src + n \<le> length m \<and> dst + n \<le> length m
      then Ok (take dst m @ take n (drop src m) @ drop (dst + n) m)
      else Fault)"

section \<open>The line and field locators\<close>

function findEndOfLine :: "char list \<Rightarrow> nat \<Rightarrow> nat result" where
  "findEndOfLine str curInd =
     (if curInd < length str
      then (if str ! curInd \<noteq> NL then findEndOfLine str (curInd + 1) else Ok curInd)
      else Fault)"
  by pat_completeness auto
termination
  by (relation "measure (\<lambda>(str, curInd). length str - curInd)") auto

declare findEndOfLine.simps [simp del]

lemma strncmp0_Ok_in_range:
  "strncmp0 m i (c # cs) = Ok b \<Longrightarrow> i < length m"
  by (auto simp: rd_def split: if_splits)

function findEndOfField :: "char list \<Rightarrow> nat \<Rightarrow> nat result" where
  "findEndOfField str curInd =
     (case strncmp0 str (curInd + 1) ''},\<newline>'' of
        Fault \<Rightarrow> Fault
      | Ok found \<Rightarrow> if found then Ok (curInd + 3) else findEndOfField str (curInd + 1))"
  by pat_completeness auto
termination
proof (relation "measure (\<lambda>(str, curInd). length str - curInd)")
  fix str curInd found
  assume "strncmp0 str (curInd + 1) ''},\<newline>'' = Ok found"
  then have "curInd + 1 < length str"
    by (rule strncmp0_Ok_in_range)
  then show "((str, curInd + 1), (str, curInd)) \<in> measure (\<lambda>(str, curInd). length str - curInd)"
    by simp
qed simp

declare findEndOfField.simps [simp del]

section \<open>Configuration\<close>

text \<open>The five switches at the head of \<^verbatim>\<open>main\<close> and the list of entry types that keep their URL.\<close>

record config =
  turn_issn_into_missing_year :: bool
  turn_every_entry_url_exception :: bool
  keep_url_only_if_no_doi :: bool
  keep_annote :: bool
  keep_abstract :: bool
  URL_EXCEPTION_TYPES :: "string list"

definition default_config :: config where
  "default_config =
     \<lparr> turn_issn_into_missing_year = False,
       turn_every_entry_url_exception = True,
       keep_url_only_if_no_doi = True,
       keep_annote = False,
       keep_abstract = False,
       URL_EXCEPTION_TYPES = [''misc'', ''unpublished''] \<rparr>"

definition BIB_TYPE_MAX :: nat where
  "BIB_TYPE_MAX = 25"

section \<open>The entry scanner of \<^verbatim>\<open>main\<close>\<close>

text \<open>
  The input: \<^verbatim>\<open>main\<close> allocates \<open>fileLength + 1\<close> bytes and \<^verbatim>\<open>fread\<close> fills the first
  \<open>fileLength\<close> of them with the bytes of the file.  Nothing is stored at index
  \<open>fileLength\<close>: the block keeps there the byte \<open>u\<close> that it held before.  \<open>behind\<close>
  stands for the readable bytes that follow the block in memory.
\<close>

definition readInput :: "char list \<Rightarrow> char \<Rightarrow> char list \<Rightarrow> char list" where
  "readInput file u behind = file @ [u] @ behind"

text \<open>
  The buffer \<open>inputContent\<close> is scanned as a C string.  \<open>findStart\<close> is the loop that
  looks for the next \<open>@\<close>; it stops on the \<open>@\<close> or on a NUL.
\<close>

function findStart :: "char list \<Rightarrow> nat \<Rightarrow> nat result" where
  "findStart inputContent curInputInd =
     (if curInputInd < length inputContent
      then (if inputContent ! curInputInd \<noteq> CHR ''@''
            then (if inputContent ! curInputInd = NUL then Ok curInputInd
                  else findStart inputContent (curInputInd + 1))
            else Ok curInputInd)
      else Fault)"
  by pat_completeness auto
termination
  by (relation "measure (\<lambda>(inputContent, curInputInd). length inputContent - curInputInd)") auto

declare findStart.simps [simp del]

text \<open>
  The test that ends an entry: a \<open>}\<close> with a newline before it and a newline or the NUL
  behind it, or the NUL itself.  The conjunction is evaluated left to right and reads the
  neighbours only when the byte is a \<open>}\<close>; index \<open>0\<close> has no byte before it.
\<close>

definition atEntryEnd :: "char list \<Rightarrow> nat \<Rightarrow> bool result" where
  "atEntryEnd inputContent curInputInd =
     (case rd inputContent curInputInd of
        Fault \<Rightarrow> Fault
      | Ok c \<Rightarrow>
          if c = CHR ''}'' then
            (case (if curInputInd = 0 then Fault else rd inputContent (curInputInd - 1)) of
               Fault \<Rightarrow> Fault
             | Ok b \<Rightarrow>
                 if b = NL then
                   (case rd inputContent (curInputInd + 1) of
                      Fault \<Rightarrow> Fault
                    | Ok a \<Rightarrow> Ok (a = NL \<or> a = NUL \<or> c = NUL))
                 else Ok (c = NUL))
          else Ok (c = NUL))"

function findEnd :: "char list \<Rightarrow> nat \<Rightarrow> nat result" where
  "findEnd inputContent curInputInd =
     (case atEntryEnd inputContent curInputInd of
        Fault \<Rightarrow> Fault
      | Ok stop \<Rightarrow> if stop then Ok curInputInd else findEnd inputContent (curInputInd + 1))"
  by pat_completeness auto
termination
proof (relation "measure (\<lambda>(inputContent, curInputInd). length inputContent - curInputInd)")
  fix inputContent curInputInd stop
  assume "atEntryEnd inputContent curInputInd = Ok stop"
  then have "curInputInd < length inputContent"
    by (auto simp: atEntryEnd_def rd_def split: if_splits)
  then show "((inputContent, curInputInd + 1), (inputContent, curInputInd))
      \<in> measure (\<lambda>(inputContent, curInputInd). length inputContent - curInputInd)"
    by simp
qed simp

declare findEnd.simps [simp del]

text \<open>
  One turn of the outer \<^verbatim>\<open>while(true)\<close> up to the copy: \<open>None\<close> when the loop is left
  (no further \<open>@\<close>, or no end of entry before the NUL), otherwise the anchor (the index
  of the \<open>@\<close>) and the index of the closing brace, which is also where the next turn
  starts to look.
\<close>

definition nextEntry :: "char list \<Rightarrow> nat \<Rightarrow> (nat \<times> nat) option result" where
  "nextEntry inputContent curInputInd =
     (case findStart inputContent curInputInd of
        Fault \<Rightarrow> Fault
      | Ok a \<Rightarrow>
          if inputContent ! a = NUL then Ok None
          else
            (case findEnd inputContent (a + 1) of
               Fault \<Rightarrow> Fault
             | Ok e \<Rightarrow> if inputContent ! e = NUL then Ok None else Ok (Some (a, e))))"

text \<open>The copy loop: \<open>curBibLength = curInputInd - curInputAnchorInd + 2\<close> bytes from the anchor.\<close>

definition copyEntry :: "char list \<Rightarrow> nat \<Rightarrow> nat \<Rightarrow> char list" where
  "copyEntry inputContent curInputAnchorInd curInputInd =
     take (curInputInd - curInputAnchorInd + 2) (drop curInputAnchorInd inputContent)"

text \<open>
  The entries that the turns of the outer loop find one after the other, each as the
  pair of its anchor and the index of its closing brace.  (The fixes applied to an
  entry do not touch \<open>curInputInd\<close>.)
\<close>

lemma findStart_bounds:
  "findStart inputContent c = Ok a \<Longrightarrow> c \<le> a \<and> a < length inputContent"
proof (induction inputContent c rule: findStart.induct)
  case (1 inputContent curInputInd)
  from "1.prems" have "curInputInd < length inputContent"
    by (subst (asm) findStart.simps) (simp split: if_splits)
  with 1 show ?case
    by (subst (asm) (2) findStart.simps) (auto split: if_splits)
qed

lemma findEnd_bounds:
  "findEnd inputContent c = Ok e \<Longrightarrow> c \<le> e \<and> e < length inputContent"
proof (induction inputContent c rule: findEnd.induct)
  case (1 inputContent curInputInd)
  show ?case
  proof (cases "atEntryEnd inputContent curInputInd")
    case Fault
    with "1.prems" show ?thesis
      by (subst (asm) findEnd.simps) simp
  next
    case (Ok stop)
    then have lt: "curInputInd < length inputContent"
      by (auto simp: atEntryEnd_def rd_def split: if_splits)
    show ?thesis
    proof (cases stop)
      case True
      with "1.prems" Ok lt show ?thesis
        by (subst (asm) findEnd.simps) simp
    next
      case False
      with "1.prems" Ok have "findEnd inputContent (curInputInd + 1) = Ok e"
        by (subst (asm) findEnd.simps) simp
      with "1.IH"[OF Ok False] show ?thesis by simp
    qed
  qed
qed

function extractAll :: "char list \<Rightarrow> nat \<Rightarrow> (nat \<times> nat) list result" where
  "extractAll inputContent curInputInd =
     (case nextEntry inputContent curInputInd of
        Fault \<Rightarrow> Fault
      | Ok None \<Rightarrow> Ok []
      | Ok (Some (a, e)) \<Rightarrow>
          (case extractAll inputContent e of
             Fault \<Rightarrow> Fault
           | Ok es \<Rightarrow> Ok ((a, e) # es)))"
  by pat_completeness auto
termination
proof (relation "measure (\<lambda>(inputContent, curInputInd). length inputContent - curInputInd)")
  fix inputContent curInputInd x2 x2a x y
  assume "nextEntry inputContent curInputInd = Ok x2" "x2 = Some x2a" "(x, y) = x2a"
  then have "nextEntry inputContent curInputInd = Ok (Some (x, y))"
    by simp
  then obtain a' where "findStart inputContent curInputInd = Ok a'" "findEnd inputContent (a' + 1) = Ok y"
    by (auto simp: nextEntry_def split: result.splits if_splits)
  then have "curInputInd < y \<and> y < length inputContent"
    using findStart_bounds findEnd_bounds by fastforce
  then have "length inputContent - y < length inputContent - curInputInd"
    by arith
  then show "((inputContent, y), (inputContent, curInputInd))
      \<in> measure (\<lambda>(inputContent, curInputInd). length inputContent - curInputInd)"
    by simp
qed simp

declare extractAll.simps [simp del]

section \<open>The field rewriter of \<^verbatim>\<open>main\<close>\<close>

text \<open>The variables of \<^verbatim>\<open>main\<close> that the scan of one entry reads and writes.\<close>

record scan_state =
  curBibEntry :: "char list"
  curBibInd :: nat
  curBibLength :: nat
  bHasYear :: bool
  bHasISSN :: bool
  issnInd :: nat
  has_doi :: bool

text \<open>
  The entry type: the loop copies bytes into \<open>bibType\<close> until it meets a \<open>{\<close> or
  \<open>curBibInd\<close> (here \<open>i\<close>) reaches \<open>BIB_TYPE_MAX\<close>.  It returns the index it stops at and the
  bytes it has copied.  The byte is read before the bound is tested.
\<close>

function bibTypeScan :: "char list \<Rightarrow> nat \<Rightarrow> char list \<Rightarrow> (nat \<times> char list) result" where
  "bibTypeScan m i bibType =
     (case rd m i of
        Fault \<Rightarrow> Fault
      | Ok c \<Rightarrow>
          if c \<noteq> CHR ''{'' \<and> i < BIB_TYPE_MAX
          then bibTypeScan m (i + 1) (bibType @ [c])
          else Ok (i, bibType))"
  by pat_completeness auto
termination
  by (relation "measure (\<lambda>(m, i, bibType). BIB_TYPE_MAX - i)") auto

declare bibTypeScan.simps [simp del]

text \<open>
  The loop over \<open>URL_EXCEPTION_TYPES\<close> with \<^verbatim>\<open>strcmp\<close>, followed by the override.
  \<open>bibType\<close> is closed by a NUL and compared as a C string.
\<close>

definition urlException :: "config \<Rightarrow> char list \<Rightarrow> bool" where
  "urlException cfg bibType =
     (list_ex (\<lambda>t. cstring bibType = t) (URL_EXCEPTION_TYPES cfg)
      \<or> turn_every_entry_url_exception cfg)"

text \<open>The \<open>month =\<close> branch.\<close>

definition fixMonth :: "scan_state \<Rightarrow> scan_state result" where
  "fixMonth st =
     (let m = curBibEntry st; i = curBibInd st; L = curBibLength st in
      case rd m (i + 9) of
        Fault \<Rightarrow> Fault
      | Ok a \<Rightarrow>
          if a \<noteq> CHR ''{'' then Ok st
          else
            (case rd m (i + 13) of
               Fault \<Rightarrow> Fault
             | Ok b \<Rightarrow>
                 if b \<noteq> CHR ''}'' then Ok st
                 else
                   (let m1 = m[i + 9 := m ! (i + 10)];
                        m2 = m1[i + 10 := m1 ! (i + 11)];
                        m3 = m2[i + 11 := m2 ! (i + 12)]
                    in case memmove m3 (i + 12) (i + 14) (ulong (int L - int i - 13)) of
                         Fault \<Rightarrow> Fault
                       | Ok m4 \<Rightarrow>
                           Ok (st\<lparr>curBibEntry := m4, curBibLength := ulong (int L - 2)\<rparr>))))"

text \<open>The \<open>title =\<close> branch: two moves, with no test of the bytes they overwrite.\<close>

definition fixTitle :: "scan_state \<Rightarrow> scan_state result" where
  "fixTitle st =
     (let m = curBibEntry st; i = curBibInd st; L = curBibLength st in
      case findEndOfLine m (i + 1) of
        Fault \<Rightarrow> Fault
      | Ok indEOL \<Rightarrow>
          (case memmove m (i + 10) (i + 11) (ulong (int indEOL - int i - 13)) of
             Fault \<Rightarrow> Fault
           | Ok m1 \<Rightarrow>
               (case memmove m1 (indEOL - 3) (indEOL - 1) (ulong (int L - int indEOL + 2)) of
                  Fault \<Rightarrow> Fault
                | Ok m2 \<Rightarrow>
                    Ok (st\<lparr>curBibEntry := m2, curBibLength := ulong (int L - 2)\<rparr>))))"

text \<open>
  The move that the \<open>annote\<close>/\<open>abstract\<close>, \<open>file\<close> and \<open>url\<close> branches share, given
  the index \<open>indEOL\<close> they have located: the bytes behind \<open>indEOL\<close> go to
  \<open>curBibInd + 1\<close>, and \<open>curBibInd\<close> steps back by one.
\<close>

definition eraseTo :: "scan_state \<Rightarrow> nat \<Rightarrow> scan_state result" where
  "eraseTo st indEOL =
     (let m = curBibEntry st; i = curBibInd st; L = curBibLength st in
      case memmove m (i + 1) (indEOL + 1) (ulong (int L - int indEOL + 1)) of
        Fault \<Rightarrow> Fault
      | Ok m1 \<Rightarrow>
          Ok (st\<lparr>curBibEntry := m1,
                 curBibLength := ulong (int L - (int indEOL - int i)),
                 curBibInd := ulong (int i - 1)\<rparr>))"

definition eraseField :: "scan_state \<Rightarrow> scan_state result" where
  "eraseField st =
     (case findEndOfField (curBibEntry st) (curBibInd st + 1) of
        Fault \<Rightarrow> Fault
      | Ok indEOL \<Rightarrow> eraseTo st indEOL)"

definition eraseLine :: "scan_state \<Rightarrow> scan_state result" where
  "eraseLine st =
     (case findEndOfLine (curBibEntry st) (curBibInd st + 1) of
        Fault \<Rightarrow> Fault
      | Ok indEOL \<Rightarrow> eraseTo st indEOL)"

text \<open>
  The condition of the \<open>annote\<close>/\<open>abstract\<close> branch; \<^verbatim>\<open>&&\<close> and \<^verbatim>\<open>||\<close> evaluate
  from the left and skip what they do not need.
\<close>

definition annoteOrAbstract :: "config \<Rightarrow> char list \<Rightarrow> nat \<Rightarrow> bool result" where
  "annoteOrAbstract cfg m i =
     (case (if keep_annote cfg then Ok False else strncmp0 m (i + 1) ''annote ='') of
        Fault \<Rightarrow> Fault
      | Ok a \<Rightarrow>
          if a then Ok True
          else if keep_abstract cfg then Ok False
          else strncmp0 m (i + 1) ''abstract ='')"

text \<open>The chain of tests made when \<open>curBibEntry[curBibInd]\<close> is a newline.\<close>

definition fixLine :: "config \<Rightarrow> bool \<Rightarrow> scan_state \<Rightarrow> scan_state result" where
  "fixLine cfg bUrlException st =
     (let m = curBibEntry st; i = curBibInd st in
      case strncmp0 m (i + 1) ''month ='' of Fault \<Rightarrow> Fault | Ok isMonth \<Rightarrow>
      (if isMonth then fixMonth st else
      (case strncmp0 m (i + 1) ''title ='' of Fault \<Rightarrow> Fault | Ok isTitle \<Rightarrow>
      (if isTitle then fixTitle st else
      (case annoteOrAbstract cfg m i of Fault \<Rightarrow> Fault | Ok isAnnote \<Rightarrow>
      (if isAnnote then eraseField st else
      (case strncmp0 m (i + 1) ''doi ='' of Fault \<Rightarrow> Fault | Ok isDoi \<Rightarrow>
      (if isDoi then Ok (st\<lparr>has_doi := True\<rparr>) else
      (case strncmp0 m (i + 1) ''file ='' of Fault \<Rightarrow> Fault | Ok isFile \<Rightarrow>
      (if isFile then eraseLine st else
      (case strncmp0 m (i + 1) ''url ='' of Fault \<Rightarrow> Fault | Ok isUrl \<Rightarrow>
      (if isUrl then
        (if \<not> bUrlException \<or> (bUrlException \<and> keep_url_only_if_no_doi cfg \<and> has_doi st)
         then eraseLine st else Ok st)
      else
      (case strncmp0 m (i + 1) ''year ='' of Fault \<Rightarrow> Fault | Ok isYear \<Rightarrow>
      (if isYear then Ok (st\<lparr>bHasYear := True\<rparr>) else
      (case strncmp0 m (i + 1) ''issn ='' of Fault \<Rightarrow> Fault | Ok isIssn \<Rightarrow>
      (if isIssn then Ok (st\<lparr>bHasISSN := True, issnInd := i + 1\<rparr>)
       else Ok st))))))))))))))))"

text \<open>The two escaped braces: \<open>{\{}\<close> and \<open>{\}}\<close>.\<close>

definition escOpen :: string where
  "escOpen = [CHR ''{'', BSL, CHR ''{'', CHR ''}'']"

definition escClose :: string where
  "escClose = [CHR ''{'', BSL, CHR ''}'', CHR ''}'']"

definition fixBrace :: "scan_state \<Rightarrow> scan_state result" where
  "fixBrace st =
     (let m = curBibEntry st; i = curBibInd st; L = curBibLength st in
      case strncmp0 m i escOpen of Fault \<Rightarrow> Fault | Ok isOpen \<Rightarrow>
      (if isOpen then
        (case memmove m (i + 1) (i + 4) (ulong (int L - int i - 2)) of
           Fault \<Rightarrow> Fault
         | Ok m1 \<Rightarrow> Ok (st\<lparr>curBibEntry := m1, curBibLength := ulong (int L - 3)\<rparr>))
      else
      (case strncmp0 m i escClose of Fault \<Rightarrow> Fault | Ok isClose \<Rightarrow>
      (if isClose then
        (case memmove (m[i := CHR ''}'']) (i + 1) (i + 4) (ulong (int L - int i - 2)) of
           Fault \<Rightarrow> Fault
         | Ok m1 \<Rightarrow> Ok (st\<lparr>curBibEntry := m1, curBibLength := ulong (int L - 3)\<rparr>))
      else Ok st))))"

text \<open>
  The body of the loop \<^verbatim>\<open>while(curBibEntry[curBibInd] != '\0')\<close>: one of the two
  groups of tests, then \<open>curBibInd++\<close>.
\<close>

definition fixStep :: "config \<Rightarrow> bool \<Rightarrow> scan_state \<Rightarrow> scan_state result" where
  "fixStep cfg bUrlException st =
     (case (if curBibEntry st ! curBibInd st = NL then fixLine cfg bUrlException st
            else fixBrace st) of
        Fault \<Rightarrow> Fault
      | Ok st' \<Rightarrow> Ok (st'\<lparr>curBibInd := curBibInd st' + 1\<rparr>))"

text \<open>
  The loop itself.  Nothing bounds the number of its turns for an arbitrary buffer, so
  it is a partial function: \<open>None\<close> is a loop that does not end, \<open>Some Fault\<close> a run
  that leaves the memory, \<open>Some (Ok st)\<close> the state in which the loop is left.
\<close>

partial_function (option) fixLoop :: "config \<Rightarrow> bool \<Rightarrow> scan_state \<Rightarrow> scan_state result option" where
  "fixLoop cfg bUrlException st =
     (case rd (curBibEntry st) (curBibInd st) of
        Fault \<Rightarrow> Some Fault
      | Ok c \<Rightarrow>
          if c = NUL then Some (Ok st)
          else
            (case fixStep cfg bUrlException st of
               Fault \<Rightarrow> Some Fault
             | Ok st' \<Rightarrow> fixLoop cfg bUrlException st'))"

text \<open>The renaming of \<open>issn\<close> to \<open>year\<close> behind the loop.\<close>

definition wr :: "char list \<Rightarrow> nat \<Rightarrow> char \<Rightarrow> char list result" where
  "wr m i c = (if i < length m then Ok (m[i := c]) else Fault)"

definition issnToYear :: "config \<Rightarrow> scan_state \<Rightarrow> scan_state result" where
  "issnToYear cfg st =
     (if turn_issn_into_missing_year cfg \<and> \<not> bHasYear st \<and> bHasISSN st then
        (case wr (curBibEntry st) (issnInd st) (CHR ''y'') of Fault \<Rightarrow> Fault | Ok m1 \<Rightarrow>
        (case wr m1 (issnInd st + 1) (CHR ''e'') of Fault \<Rightarrow> Fault | Ok m2 \<Rightarrow>
        (case wr m2 (issnInd st + 2) (CHR ''a'') of Fault \<Rightarrow> Fault | Ok m3 \<Rightarrow>
        (case wr m3 (issnInd st + 3) (CHR ''r'') of Fault \<Rightarrow> Fault | Ok m4 \<Rightarrow>
         Ok (st\<lparr>curBibEntry := m4\<rparr>)))))
      else Ok st)"

text \<open>
  The fixes applied to one entry, from \<open>curBibInd = 1\<close> to the state that is written
  out.  \<open>m\<close> is the buffer with the copy of the entry and \<open>L\<close> the value of
  \<open>curBibLength\<close>.  \<open>issnInd\<close> is not initialised in the source; it is read only
  after \<open>bHasISSN\<close> has been set together with it.
\<close>

definition fixEntry :: "config \<Rightarrow> char list \<Rightarrow> nat \<Rightarrow> scan_state result option" where
  "fixEntry cfg m L =
     (case bibTypeScan m 1 [] of
        Fault \<Rightarrow> Some Fault
      | Ok (i, bibType) \<Rightarrow>
          (case fixLoop cfg (urlException cfg bibType)
                  \<lparr> curBibEntry = m, curBibInd = i, curBibLength = L, bHasYear = False,
                    bHasISSN = False, issnInd = 0, has_doi = False \<rparr> of
             None \<Rightarrow> None
           | Some Fault \<Rightarrow> Some Fault
           | Some (Ok st) \<Rightarrow> Some (issnToYear cfg st)))"

text \<open>
  The buffer of an entry as \<^verbatim>\<open>main\<close> allocates and fills it: the \<open>curBibLength\<close> bytes
  of the copy and a NUL.  \<open>behind\<close> stands for the readable bytes that follow the block
  in memory.  What \<^verbatim>\<open>strcat\<close> appends to the output is the C string in the buffer.
\<close>

definition entryBuffer :: "char list \<Rightarrow> char list \<Rightarrow> char list" where
  "entryBuffer entry behind = entry @ [NUL] @ behind"

definition fixed :: "config \<Rightarrow> char list \<Rightarrow> char list \<Rightarrow> string result option" where
  "fixed cfg behind entry =
     (case fixEntry cfg (entryBuffer entry behind) (length entry) of
        None \<Rightarrow> None
      | Some Fault \<Rightarrow> Some Fault
      | Some (Ok st) \<Rightarrow> Some (Ok (cstring (curBibEntry st))))"

section \<open>Predicates used to state the properties\<close>

text \<open>The three bytes \<open>},\<close> and newline start at index \<open>k\<close> of \<open>m\<close>.\<close>

definition terminatorAt :: "char list \<Rightarrow> nat \<Rightarrow> bool" where
  "terminatorAt m k = (take 3 (drop k m) = ''},\<newline>'')"


text \<open>
  \<open>entryEnd\<close>: index \<open>j\<close> holds a closing brace that ends an entry.
  \<open>entryFrom inp c a e\<close>: looking from index \<open>c\<close> on, the next entry has its anchor at
  \<open>a\<close> and its closing brace at \<open>e\<close>.  \<open>chain\<close>: each entry of a list is the next entry
  behind the closing brace of the one before.
\<close>

definition entryEnd :: "char list \<Rightarrow> nat \<Rightarrow> bool" where
  "entryEnd inp j =
     (0 < j \<and> inp ! j = CHR ''}'' \<and> inp ! (j - 1) = NL \<and> (inp ! (j + 1) = NL \<or> inp ! (j + 1) = NUL))"

definition entryFrom :: "char list \<Rightarrow> nat \<Rightarrow> nat \<Rightarrow> nat \<Rightarrow> bool" where
  "entryFrom inp c a e =
     (c \<le> a \<and> a < e \<and> inp ! a = CHR ''@'' \<and> entryEnd inp e
      \<and> (\<forall>j. c \<le> j \<and> j < a \<longrightarrow> inp ! j \<noteq> CHR ''@'')
      \<and> (\<forall>j. a < j \<and> j < e \<longrightarrow> \<not> entryEnd inp j)
      \<and> (\<forall>j. c \<le> j \<and> j \<le> e \<longrightarrow> inp ! j \<noteq> NUL))"

fun chain :: "char list \<Rightarrow> nat \<Rightarrow> (nat \<times> nat) list \<Rightarrow> bool" where
  "chain inp c [] = True"
| "chain inp c ((a, e) # es) = (entryFrom inp c a e \<and> chain inp e es)"

text \<open>
  The type of an entry \<open>@\<close>, \<open>ty\<close>, \<open>{\<close>, ... as the scan of the type sees it: \<open>typeEnd\<close>
  is the index at which the scan stops and the rewriting loop starts, \<open>typeRead\<close> what
  has been copied into \<open>bibType\<close> by then.
\<close>

definition typeEnd :: "char list \<Rightarrow> nat" where
  "typeEnd ty = min (length ty + 1) BIB_TYPE_MAX"

definition typeRead :: "char list \<Rightarrow> char list" where
  "typeRead ty = take (BIB_TYPE_MAX - 1) ty"

text \<open>
  The text of an entry, position by position.  \<open>lineAt s p lit\<close>: index \<open>p\<close> holds a
  newline and the bytes behind it spell \<open>lit\<close>.  \<open>doiSeen s a p\<close>: a line that begins
  with \<open>doi =\<close> starts at a newline between \<open>a\<close> and \<open>p\<close>.  \<open>fixable\<close>: the tests of
  the loop body find something to change at index \<open>p\<close>, given the URL exception flag and
  whether a DOI has been met.  \<open>quiet\<close>: no index from \<open>a\<close> up to \<open>b\<close> is fixable, with
  \<open>hasDoi\<close> telling whether a DOI had been met on arrival at \<open>a\<close>.
\<close>

definition lineAt :: "char list \<Rightarrow> nat \<Rightarrow> string \<Rightarrow> bool" where
  "lineAt s p lit = (p < length s \<and> s ! p = NL \<and> take (length lit) (drop (p + 1) s) = lit)"

definition byteAt :: "char list \<Rightarrow> nat \<Rightarrow> char \<Rightarrow> bool" where
  "byteAt s p c = (p < length s \<and> s ! p = c)"

definition doiSeen :: "char list \<Rightarrow> nat \<Rightarrow> nat \<Rightarrow> bool" where
  "doiSeen s i p = (\<exists>k\<in>{i..<p}. lineAt s k ''doi ='')"

definition fixable :: "config \<Rightarrow> bool \<Rightarrow> bool \<Rightarrow> char list \<Rightarrow> nat \<Rightarrow> bool" where
  "fixable cfg bUrlException hasDoi s p =
     ((lineAt s p ''month ='' \<and> byteAt s (p + 9) (CHR ''{'') \<and> byteAt s (p + 13) (CHR ''}''))
      \<or> lineAt s p ''title =''
      \<or> (\<not> keep_annote cfg \<and> lineAt s p ''annote ='')
      \<or> (\<not> keep_abstract cfg \<and> lineAt s p ''abstract ='')
      \<or> lineAt s p ''file =''
      \<or> (lineAt s p ''url ='' \<and> (\<not> bUrlException \<or> (keep_url_only_if_no_doi cfg \<and> hasDoi)))
      \<or> take 4 (drop p s) = escOpen
      \<or> take 4 (drop p s) = escClose)"

definition quiet :: "config \<Rightarrow> bool \<Rightarrow> bool \<Rightarrow> char list \<Rightarrow> nat \<Rightarrow> nat \<Rightarrow> bool" where
  "quiet cfg bUrlException hasDoi s a b =
     (\<forall>p\<in>{a..<b}. \<not> fixable cfg bUrlException (hasDoi \<or> doiSeen s a p) s p)"

text \<open>
  Two notions for the proofs.  \<open>buf st s g z\<close>: the buffer of state \<open>st\<close> holds the text
  \<open>s\<close>, a NUL, and further bytes \<open>z\<close>; \<open>curBibLength\<close> is the length of \<open>s\<close>, or one
  more when the copy itself ended with the NUL of the input (then \<open>z\<close> begins with the
  NUL that \<^verbatim>\<open>main\<close> appends).  \<open>monthRoom\<close>: the two bytes that the \<open>month =\<close> branch
  reads lie within the text or on its NUL.
\<close>

definition monthRoom :: "char list \<Rightarrow> nat \<Rightarrow> nat \<Rightarrow> bool" where
  "monthRoom s g p =
     (lineAt s p ''month ='' \<longrightarrow>
        p + 9 < length s \<and> (s ! (p + 9) = CHR ''{'' \<longrightarrow> p + 13 \<le> length s + g))"

definition buf :: "scan_state \<Rightarrow> char list \<Rightarrow> nat \<Rightarrow> char list \<Rightarrow> bool" where
  "buf st s g z =
     (curBibEntry st = s @ NUL # z \<and> curBibLength st = length s + g \<and> NUL \<notin> set s
      \<and> (g = 0 \<or> g = 1 \<and> take 1 z = [NUL])
      \<and> int (length s + 1 + length z) < ULONG_RANGE)"

text \<open>
  \<open>quietN\<close> is \<open>quiet\<close> in a form that can be computed: it walks along the text
  \<open>w\<close> that begins at the first index and looks at \<open>n\<close> positions.
\<close>

fun quietN :: "config \<Rightarrow> bool \<Rightarrow> bool \<Rightarrow> char list \<Rightarrow> nat \<Rightarrow> bool" where
  "quietN cfg bUrlException hasDoi w 0 = True"
| "quietN cfg bUrlException hasDoi [] (Suc n) = True"
| "quietN cfg bUrlException hasDoi (c # cs) (Suc n) =
     (\<not> fixable cfg bUrlException hasDoi (c # cs) 0
      \<and> quietN cfg bUrlException (hasDoi \<or> lineAt (c # cs) 0 ''doi ='') cs n)"

declare fixLoop.simps [code]

section \<open>The locators\<close>

lemma strncmp0_True_iff:
  "strncmp0 m i lit = Ok True \<longleftrightarrow> take (length lit) (drop i m) = lit"
proof (induction lit arbitrary: i)
  case Nil
  then show ?case by simp
next
  case (Cons c cs)
  show ?case
  proof (cases "i < length m")
    case True
    then have "drop i m = m ! i # drop (Suc i) m"
      by (simp add: Cons_nth_drop_Suc)
    with True Cons show ?thesis
      by (auto simp: rd_def)
  next
    case False
    then show ?thesis by (simp add: rd_def)
  qed
qed

lemma strncmp0_Fault_short:
  "strncmp0 m i lit = Fault \<Longrightarrow> length m < i + length lit"
proof (induction lit arbitrary: i)
  case Nil
  then show ?case by simp
next
  case (Cons c cs)
  show ?case
  proof (cases "i < length m")
    case True
    with Cons.prems have "strncmp0 m (Suc i) cs = Fault"
      by (simp add: rd_def split: if_splits)
    then have "length m < Suc i + length cs"
      by (rule Cons.IH)
    then show ?thesis by simp
  next
    case False
    then show ?thesis by simp
  qed
qed

declare strncmp0.simps [simp del]

lemma strncmp0_terminator:
  "strncmp0 m k ''},\<newline>'' = Ok True \<longleftrightarrow> terminatorAt m k"
  by (simp add: strncmp0_True_iff terminatorAt_def numeral_3_eq_3)

lemma terminatorAt_length: "terminatorAt m k \<Longrightarrow> k + 3 \<le> length m"
proof -
  assume "terminatorAt m k"
  then have "length (take 3 (drop k m)) = 3"
    by (simp add: terminatorAt_def)
  then show ?thesis by simp
qed

lemma findEndOfField_Ok_iff:
  "findEndOfField m s = Ok r \<longleftrightarrow>
     (s + 3 \<le> r \<and> terminatorAt m (r - 2) \<and> (\<forall>k. s < k \<and> k < r - 2 \<longrightarrow> \<not> terminatorAt m k))"
proof (induction m s arbitrary: r rule: findEndOfField.induct)
  case (1 str curInd)
  show ?case
  proof (cases "strncmp0 str (curInd + 1) ''},\<newline>''")
    case Fault
    then have "length str < curInd + 1 + 3"
      by (auto dest: strncmp0_Fault_short)
    then have "\<And>k. curInd < k \<Longrightarrow> \<not> terminatorAt str k"
      by (auto dest: terminatorAt_length)
    moreover have "findEndOfField str curInd = Fault"
      using Fault by (subst findEndOfField.simps) simp
    ultimately show ?thesis
      by auto
  next
    case (Ok found)
    show ?thesis
    proof (cases found)
      case True
      then have t: "terminatorAt str (curInd + 1)"
        using Ok strncmp0_terminator by simp
      have "findEndOfField str curInd = Ok (curInd + 3)"
        using Ok True by (subst findEndOfField.simps) simp
      moreover have "r = curInd + 3"
        if "curInd + 3 \<le> r" "terminatorAt str (r - 2)" "\<forall>k. curInd < k \<and> k < r - 2 \<longrightarrow> \<not> terminatorAt str k"
      proof (rule ccontr)
        assume "r \<noteq> curInd + 3"
        with that have "curInd < curInd + 1 \<and> curInd + 1 < r - 2" by arith
        with that t show False by blast
      qed
      ultimately show ?thesis using t by auto
    next
      case False
      then have nt: "\<not> terminatorAt str (curInd + 1)"
        using Ok strncmp0_terminator[of str "curInd + 1"] by simp
      have eq: "findEndOfField str curInd = findEndOfField str (curInd + 1)"
        using Ok False by (subst findEndOfField.simps) simp
      have ih: "findEndOfField str (curInd + 1) = Ok r \<longleftrightarrow>
         (curInd + 1 + 3 \<le> r \<and> terminatorAt str (r - 2) \<and> (\<forall>k. curInd + 1 < k \<and> k < r - 2 \<longrightarrow> \<not> terminatorAt str k))"
        using 1[OF Ok] False by simp
      show ?thesis
      proof
        assume "findEndOfField str curInd = Ok r"
        with eq ih have a: "curInd + 1 + 3 \<le> r" "terminatorAt str (r - 2)"
          "\<forall>k. curInd + 1 < k \<and> k < r - 2 \<longrightarrow> \<not> terminatorAt str k" by auto
        have "\<not> terminatorAt str k" if "curInd < k \<and> k < r - 2" for k
        proof (cases "k = curInd + 1")
          case True then show ?thesis using nt by simp
        next
          case False with that a(3) show ?thesis by simp
        qed
        with a show "curInd + 3 \<le> r \<and> terminatorAt str (r - 2) \<and> (\<forall>k. curInd < k \<and> k < r - 2 \<longrightarrow> \<not> terminatorAt str k)"
          by auto
      next
        assume b: "curInd + 3 \<le> r \<and> terminatorAt str (r - 2) \<and> (\<forall>k. curInd < k \<and> k < r - 2 \<longrightarrow> \<not> terminatorAt str k)"
        have "r \<noteq> curInd + 3"
          using b nt by (auto simp: numeral_3_eq_3)
        with b have "curInd + 1 + 3 \<le> r" by arith
        with b ih eq show "findEndOfField str curInd = Ok r" by auto
      qed
    qed
  qed
qed

lemma findEndOfField_Fault_iff:
  "findEndOfField m s = Fault \<longleftrightarrow> (\<forall>k. s < k \<longrightarrow> \<not> terminatorAt m k)"
proof
  assume f: "findEndOfField m s = Fault"
  show "\<forall>k. s < k \<longrightarrow> \<not> terminatorAt m k"
  proof (intro allI impI notI)
    fix k assume k: "s < k" "terminatorAt m k"
    define k0 where "k0 = (LEAST j. s < j \<and> terminatorAt m j)"
    have "s < k0 \<and> terminatorAt m k0"
      unfolding k0_def using k by (intro LeastI[of "\<lambda>j. s < j \<and> terminatorAt m j" k]) simp
    moreover have "\<forall>j. s < j \<and> j < k0 \<longrightarrow> \<not> terminatorAt m j"
      unfolding k0_def using not_less_Least by blast
    ultimately have "findEndOfField m s = Ok (k0 + 2)"
      by (subst findEndOfField_Ok_iff) auto
    with f show False by simp
  qed
next
  assume "\<forall>k. s < k \<longrightarrow> \<not> terminatorAt m k"
  then have "findEndOfField m s \<noteq> Ok r" for r
  proof -
    assume n: "\<forall>k. s < k \<longrightarrow> \<not> terminatorAt m k"
    show ?thesis
    proof
      assume "findEndOfField m s = Ok r"
      then have "s + 3 \<le> r" "terminatorAt m (r - 2)"
        by (simp_all add: findEndOfField_Ok_iff)
      moreover from this have "s < r - 2" by arith
      ultimately show False using n by blast
    qed
  qed
  then show "findEndOfField m s = Fault"
    by (cases "findEndOfField m s") auto
qed


lemma terminatorAt_entryBuffer:
  assumes "terminatorAt (entryBuffer entry behind) k"
  shows "terminatorAt entry k \<or> length entry < k"
proof (rule ccontr)
  assume n: "\<not> (terminatorAt entry k \<or> length entry < k)"
  then have k: "k \<le> length entry" by simp
  have t: "take 3 (drop k (entry @ NUL # behind)) = ''},\<newline>''"
    using assms by (simp add: terminatorAt_def entryBuffer_def)
  show False
  proof (cases "k + 3 \<le> length entry")
    case True
    then have "take 3 (drop k (entry @ NUL # behind)) = take 3 (drop k entry)"
      by simp
    with t n show False by (simp add: terminatorAt_def)
  next
    case False
    then have j: "length entry - k < 3" using k by arith
    have "take 3 (drop k (entry @ NUL # behind)) ! (length entry - k) = NUL"
      using k j by (simp add: nth_append)
    with t j show False
      by (auto simp: less_Suc_eq numeral_3_eq_3 nth_Cons')
  qed
qed

text \<open>
  C10.  \<open>findEndOfField\<close> returns if and only if the sequence \<open>},\<close> newline occurs in
  the buffer behind the index it is started at (for the \<open>annote\<close>/\<open>abstract\<close> branch
  that index is the first byte of the field, so the sequence is looked for from one past
  the start of the field); otherwise the scan leaves the memory.  What it returns is the
  index of the newline of the first such sequence.  When the entry itself holds no such
  sequence, a scan that stops at all stops behind the NUL that closes the entry: it has
  read past the logical end of the entry.
\<close>

theorem findEndOfField_terminator:
  "((\<exists>r. findEndOfField m s = Ok r) \<longleftrightarrow> (\<exists>k>s. terminatorAt m k))
   \<and> (findEndOfField m s = Fault \<longleftrightarrow> \<not> (\<exists>k>s. terminatorAt m k))
   \<and> (\<forall>r. findEndOfField m s = Ok r \<longrightarrow>
         s < r - 2 \<and> terminatorAt m (r - 2) \<and> (\<forall>k. s < k \<and> k < r - 2 \<longrightarrow> \<not> terminatorAt m k))
   \<and> (\<not> (\<exists>k>s. terminatorAt entry k) \<longrightarrow>
         (\<forall>r. findEndOfField (entryBuffer entry behind) s = Ok r \<longrightarrow> length entry + 2 < r))"
proof (intro conjI allI impI)
  show f: "findEndOfField m s = Fault \<longleftrightarrow> \<not> (\<exists>k>s. terminatorAt m k)"
    by (simp add: findEndOfField_Fault_iff)
  show "(\<exists>r. findEndOfField m s = Ok r) \<longleftrightarrow> (\<exists>k>s. terminatorAt m k)"
    using f by (cases "findEndOfField m s") auto
next
  fix r assume r: "findEndOfField m s = Ok r"
  then have "s + 3 \<le> r"
    by (simp add: findEndOfField_Ok_iff)
  then show "s < r - 2" by arith
  show "terminatorAt m (r - 2)"
    using r by (simp add: findEndOfField_Ok_iff)
  fix k assume "s < k \<and> k < r - 2"
  then show "\<not> terminatorAt m k"
    using r by (simp add: findEndOfField_Ok_iff)
next
  fix r
  assume n: "\<not> (\<exists>k>s. terminatorAt entry k)"
    and r: "findEndOfField (entryBuffer entry behind) s = Ok r"
  from r have a: "s + 3 \<le> r" "terminatorAt (entryBuffer entry behind) (r - 2)"
    by (simp_all add: findEndOfField_Ok_iff)
  then have "s < r - 2" by arith
  with n have "\<not> terminatorAt entry (r - 2)" by blast
  with a(2) have "length entry < r - 2"
    using terminatorAt_entryBuffer by blast
  then show "length entry + 2 < r" by arith
qed

theorem findEndOfField_terminator_witness:
  "(\<exists>k>1. terminatorAt ''a{b}c},\<newline>d'' k)
   \<and> findEndOfField ''a{b}c},\<newline>d'' 1 = Ok 7
   \<and> \<not> (\<exists>k>1. terminatorAt ''a{b}c}\<newline>}\<newline>'' k)
   \<and> findEndOfField ''a{b}c}\<newline>}\<newline>'' 1 = Fault
   \<and> findEndOfField (entryBuffer ''a{b}c}\<newline>}\<newline>'' ''xy},\<newline>'') 1 = Ok 14"
proof -
  have e: "\<exists>k>1. terminatorAt ''a{b}c},\<newline>d'' k"
    by (rule exI[of _ 5]) (simp add: terminatorAt_def)
  have v: "findEndOfField ''a{b}c},\<newline>d'' 1 = Ok 7"
    by code_simp
  have n: "\<not> (\<exists>k>1. terminatorAt ''a{b}c}\<newline>}\<newline>'' k)"
  proof
    assume "\<exists>k>1. terminatorAt ''a{b}c}\<newline>}\<newline>'' k"
    then obtain k where k: "1 < k" "terminatorAt ''a{b}c}\<newline>}\<newline>'' k" by blast
    then have "k + 3 \<le> 9" by (auto dest: terminatorAt_length)
    then have "k \<in> {2, 3, 4, 5, 6}" using k(1) by auto
    with k(2) show False by (auto simp: terminatorAt_def)
  qed
  have b: "findEndOfField (entryBuffer ''a{b}c}\<newline>}\<newline>'' ''xy},\<newline>'') 1 = Ok 14"
    by code_simp
  from findEndOfField_terminator[of "''a{b}c}\<newline>}\<newline>''" 1 "''a{b}c}\<newline>}\<newline>''" "''xy},\<newline>''"] n b
  have "findEndOfField ''a{b}c}\<newline>}\<newline>'' 1 = Fault" "length ''a{b}c}\<newline>}\<newline>'' + 2 < (14::nat)"
    by blast+
  with e v n b show ?thesis by blast
qed

section \<open>The entry scanner: what it yields\<close>

lemma findStart_first:
  assumes "c \<le> z" "z < length inp" "inp ! z = NUL"
  shows "\<exists>a. findStart inp c = Ok a \<and> c \<le> a \<and> a \<le> z
           \<and> (inp ! a = CHR ''@'' \<or> inp ! a = NUL)
           \<and> (\<forall>j. c \<le> j \<and> j < a \<longrightarrow> inp ! j \<noteq> CHR ''@'' \<and> inp ! j \<noteq> NUL)"
  using assms
proof (induction "z - c" arbitrary: c)
  case 0
  then have "c = z" by simp
  with 0 have "findStart inp c = Ok c"
    by (subst findStart.simps) simp
  with 0 \<open>c = z\<close> show ?case by auto
next
  case (Suc n)
  then have lt: "c < length inp" by simp
  show ?case
  proof (cases "inp ! c = CHR ''@'' \<or> inp ! c = NUL")
    case True
    with lt have "findStart inp c = Ok c"
      by (subst findStart.simps) auto
    with True Suc.prems show ?thesis by auto
  next
    case False
    with lt have eq: "findStart inp c = findStart inp (c + 1)"
      by (subst findStart.simps) auto
    have "n = z - (c + 1)" "c + 1 \<le> z" using Suc by auto
    from Suc.hyps(1)[OF this Suc.prems(2,3)] obtain a where
      a: "findStart inp (c + 1) = Ok a" "c + 1 \<le> a" "a \<le> z" "inp ! a = CHR ''@'' \<or> inp ! a = NUL"
         "\<forall>j. c + 1 \<le> j \<and> j < a \<longrightarrow> inp ! j \<noteq> CHR ''@'' \<and> inp ! j \<noteq> NUL"
      by blast
    have "inp ! j \<noteq> CHR ''@'' \<and> inp ! j \<noteq> NUL" if "c \<le> j \<and> j < a" for j
    proof (cases "j = c")
      case True with False show ?thesis by simp
    next
      case False with that a(5) show ?thesis by simp
    qed
    with a eq show ?thesis by auto
  qed
qed

lemma atEntryEnd_value:
  assumes "0 < j" "j \<le> z" "z < length inp" "inp ! z = NUL"
  shows "atEntryEnd inp j = Ok (entryEnd inp j \<or> inp ! j = NUL)"
proof (cases "inp ! j = CHR ''}''")
  case True
  with assms have "j \<noteq> z" by auto
  with assms have "j + 1 < length inp" by simp
  with assms True show ?thesis
    by (auto simp: atEntryEnd_def rd_def entryEnd_def)
next
  case False
  with assms show ?thesis
    by (auto simp: atEntryEnd_def rd_def entryEnd_def)
qed

lemma findEnd_first:
  assumes "0 < c" "c \<le> z" "z < length inp" "inp ! z = NUL"
  shows "\<exists>e. findEnd inp c = Ok e \<and> c \<le> e \<and> e \<le> z
           \<and> (entryEnd inp e \<or> inp ! e = NUL)
           \<and> (\<forall>j. c \<le> j \<and> j < e \<longrightarrow> \<not> entryEnd inp j \<and> inp ! j \<noteq> NUL)"
  using assms
proof (induction "z - c" arbitrary: c)
  case 0
  then have "c = z" by simp
  with 0 have "atEntryEnd inp c = Ok True"
    using atEntryEnd_value[of c z inp] by simp
  then have "findEnd inp c = Ok c"
    by (subst findEnd.simps) simp
  with 0 \<open>c = z\<close> show ?case by auto
next
  case (Suc n)
  have v: "atEntryEnd inp c = Ok (entryEnd inp c \<or> inp ! c = NUL)"
    using atEntryEnd_value[OF Suc.prems] .
  show ?case
  proof (cases "entryEnd inp c \<or> inp ! c = NUL")
    case True
    with v have "findEnd inp c = Ok c"
      by (subst findEnd.simps) simp
    with True Suc.prems show ?thesis by auto
  next
    case False
    with v have eq: "findEnd inp c = findEnd inp (c + 1)"
      by (subst findEnd.simps) simp
    have "n = z - (c + 1)" "0 < c + 1" "c + 1 \<le> z" using Suc by auto
    from Suc.hyps(1)[OF this Suc.prems(3,4)] obtain e where
      e: "findEnd inp (c + 1) = Ok e" "c + 1 \<le> e" "e \<le> z" "entryEnd inp e \<or> inp ! e = NUL"
         "\<forall>j. c + 1 \<le> j \<and> j < e \<longrightarrow> \<not> entryEnd inp j \<and> inp ! j \<noteq> NUL"
      by blast
    have "\<not> entryEnd inp j \<and> inp ! j \<noteq> NUL" if "c \<le> j \<and> j < e" for j
    proof (cases "j = c")
      case True with False show ?thesis by simp
    next
      case False with that e(5) show ?thesis by simp
    qed
    with e eq show ?thesis by auto
  qed
qed


lemma entryFrom_unique:
  assumes "entryFrom inp c a e" "entryFrom inp c a' e'"
  shows "a' = a \<and> e' = e"
proof -
  have a: "a' = a"
  proof (rule ccontr)
    assume "a' \<noteq> a"
    then consider "a' < a" | "a < a'" by arith
    then show False
      using assms by cases (auto simp: entryFrom_def)
  qed
  have "e' = e"
  proof (rule ccontr)
    assume "e' \<noteq> e"
    then consider "e' < e" | "e < e'" by arith
    then show False
      using assms a by cases (auto simp: entryFrom_def)
  qed
  with a show ?thesis by simp
qed

lemma nextEntry_entryFrom:
  assumes "c \<le> z" "z < length inp" "inp ! z = NUL"
  shows "(\<exists>a e. nextEntry inp c = Ok (Some (a, e)) \<and> entryFrom inp c a e \<and> e < z)
       \<or> (nextEntry inp c = Ok None \<and> \<not> (\<exists>a e. entryFrom inp c a e))"
proof -
  from findStart_first[OF assms] obtain a where
    a: "findStart inp c = Ok a" "c \<le> a" "a \<le> z" "inp ! a = CHR ''@'' \<or> inp ! a = NUL"
       "\<forall>j. c \<le> j \<and> j < a \<longrightarrow> inp ! j \<noteq> CHR ''@'' \<and> inp ! j \<noteq> NUL"
    by blast
  have first: "a' = a" if "entryFrom inp c a' e'" "inp ! a = CHR ''@''" for a' e'
  proof (rule ccontr)
    assume "a' \<noteq> a"
    then consider "a' < a" | "a < a'" by arith
    then show False
      using that a by cases (auto simp: entryFrom_def)
  qed
  show ?thesis
  proof (cases "inp ! a = NUL")
    case True
    have "\<not> entryFrom inp c a' e'" for a' e'
    proof
      assume ef: "entryFrom inp c a' e'"
      then have "a' < a \<or> a \<le> e'"
        by (auto simp: entryFrom_def)
      then show False
        using ef a True by (auto simp: entryFrom_def)
    qed
    moreover have "nextEntry inp c = Ok None"
      using a True by (simp add: nextEntry_def)
    ultimately show ?thesis by blast
  next
    case False
    with a have at: "inp ! a = CHR ''@''" by blast
    with assms a have "a \<noteq> z" by auto
    with a have "0 < a + 1" "a + 1 \<le> z" by auto
    from findEnd_first[OF this assms(2,3)] obtain e where
      e: "findEnd inp (a + 1) = Ok e" "a + 1 \<le> e" "e \<le> z" "entryEnd inp e \<or> inp ! e = NUL"
         "\<forall>j. a + 1 \<le> j \<and> j < e \<longrightarrow> \<not> entryEnd inp j \<and> inp ! j \<noteq> NUL"
      by blast
    show ?thesis
    proof (cases "inp ! e = NUL")
      case True
      have "\<not> entryFrom inp c a' e'" for a' e'
      proof
        assume ef: "entryFrom inp c a' e'"
        with first at have "a' = a" by blast
        with ef have "a < e'" "entryEnd inp e'" "\<forall>j. c \<le> j \<and> j \<le> e' \<longrightarrow> inp ! j \<noteq> NUL"
          by (auto simp: entryFrom_def)
        moreover have "e' < e \<or> e \<le> e'" by arith
        ultimately show False
          using e True a by auto
      qed
      moreover have "nextEntry inp c = Ok None"
        using a e at True by (simp add: nextEntry_def)
      ultimately show ?thesis by blast
    next
      case nz: False
      with e have ee: "entryEnd inp e" by blast
      have "nextEntry inp c = Ok (Some (a, e))"
        using a e at nz by (simp add: nextEntry_def)
      moreover have "inp ! j \<noteq> NUL" if j: "c \<le> j \<and> j \<le> e" for j
      proof -
        consider "j < a" | "j = a" | "a + 1 \<le> j \<and> j < e" | "j = e" using j by arith
        then show ?thesis using a e at nz j by cases auto
      qed
      then have "entryFrom inp c a e"
        using a e at ee by (auto simp: entryFrom_def)
      moreover have "e < z" using e nz assms by (cases "e = z") auto
      ultimately show ?thesis by blast
    qed
  qed
qed

lemma extractAll_chain:
  assumes "c \<le> z" "z < length inp" "inp ! z = NUL"
  shows "\<exists>es. extractAll inp c = Ok es \<and> chain inp c es
           \<and> \<not> (\<exists>a e. entryFrom inp (if es = [] then c else snd (last es)) a e)"
  using assms
proof (induction inp c rule: extractAll.induct)
  case (1 inp c)
  from nextEntry_entryFrom[OF "1.prems"]
  show ?case
  proof
    assume "\<exists>a e. nextEntry inp c = Ok (Some (a, e)) \<and> entryFrom inp c a e \<and> e < z"
    then obtain a e where ae: "nextEntry inp c = Ok (Some (a, e))" "entryFrom inp c a e" "e < z"
      by blast
    then have "e \<le> z" by simp
    from "1.IH"[OF ae(1) refl refl this "1.prems"(2,3)] obtain es where
      es: "extractAll inp e = Ok es" "chain inp e es"
          "\<not> (\<exists>a e'. entryFrom inp (if es = [] then e else snd (last es)) a e')"
      by blast
    have "extractAll inp c = Ok ((a, e) # es)"
      using ae(1) es(1) by (subst extractAll.simps) simp
    moreover have "chain inp c ((a, e) # es)"
      using ae(2) es(2) by simp
    moreover have "(if (a, e) # es = [] then c else snd (last ((a, e) # es)))
                    = (if es = [] then e else snd (last es))"
      by simp
    ultimately have "extractAll inp c = Ok ((a, e) # es) \<and> chain inp c ((a, e) # es)
        \<and> \<not> (\<exists>a' e'. entryFrom inp (if (a, e) # es = [] then c else snd (last ((a, e) # es))) a' e')"
      using es(3) by simp
    then show ?thesis by (rule exI)
  next
    assume "nextEntry inp c = Ok None \<and> \<not> (\<exists>a e. entryFrom inp c a e)"
    moreover from this have "extractAll inp c = Ok []"
      by (subst extractAll.simps) simp
    ultimately show ?thesis by auto
  qed
qed

lemma chain_nth:
  "chain inp c es \<Longrightarrow> n < length es \<Longrightarrow>
     entryFrom inp (if n = 0 then c else snd (es ! (n - 1))) (fst (es ! n)) (snd (es ! n))"
proof (induction es arbitrary: c n)
  case Nil
  then show ?case by simp
next
  case (Cons p es)
  obtain a e where p: "p = (a, e)" by (cases p)
  show ?case
  proof (cases n)
    case 0
    with Cons.prems p show ?thesis by simp
  next
    case (Suc k)
    with Cons.prems p have "chain inp e es" "k < length es" by simp_all
    from Cons.IH[OF this] Suc p show ?thesis
      by (cases k) simp_all
  qed
qed

lemma copyEntry_range:
  assumes "a \<le> e" "e + 1 < length inp"
  shows "copyEntry inp a e = map (\<lambda>j. inp ! j) [a..<e + 2]"
  using assms by (auto simp: copyEntry_def list_eq_iff_nth_eq simp del: upt_Suc)


lemma chain_before_NUL:
  "chain inp c es \<Longrightarrow> c \<le> z \<Longrightarrow> inp ! z = NUL \<Longrightarrow> n < length es \<Longrightarrow> snd (es ! n) < z"
proof (induction es arbitrary: c n)
  case Nil
  then show ?case by simp
next
  case (Cons p es)
  obtain a e where p: "p = (a, e)" by (cases p)
  with Cons.prems have ef: "entryFrom inp c a e" and ch: "chain inp e es" by simp_all
  have ez: "e < z"
  proof (rule ccontr)
    assume "\<not> e < z"
    with Cons.prems(2) have "c \<le> z \<and> z \<le> e" by simp
    with ef Cons.prems(3) show False by (auto simp: entryFrom_def)
  qed
  show ?case
  proof (cases n)
    case 0
    with p ez show ?thesis by simp
  next
    case (Suc k)
    with Cons.prems have "k < length es" by simp
    from Cons.IH[OF ch _ Cons.prems(3) this] ez Suc show ?thesis by simp
  qed
qed

lemma nextEntry_unterminated:
  assumes "NUL \<notin> set inp"
  shows "nextEntry inp c \<noteq> Ok None"
proof
  assume n: "nextEntry inp c = Ok None"
  have ne: "inp ! j \<noteq> NUL" if "j < length inp" for j
    using assms that nth_mem by metis
  from n obtain a where a: "findStart inp c = Ok a"
    by (auto simp: nextEntry_def split: result.splits)
  then have "a < length inp" using findStart_bounds by blast
  then have a0: "inp ! a \<noteq> NUL" by (rule ne)
  with n a obtain e where e: "findEnd inp (a + 1) = Ok e" "inp ! e = NUL"
    by (auto simp: nextEntry_def split: result.splits if_splits)
  then have "e < length inp" using findEnd_bounds by blast
  with e(2) ne show False by blast
qed

lemma extractAll_unterminated_Fault:
  "NUL \<notin> set inp \<Longrightarrow> extractAll inp c = Fault"
proof (induction inp c rule: extractAll.induct)
  case (1 inp c)
  show ?case
  proof (cases "nextEntry inp c")
    case Fault
    then show ?thesis by (subst extractAll.simps) simp
  next
    case (Ok r)
    with nextEntry_unterminated[OF "1.prems", of c] obtain a e where r: "r = Some (a, e)"
      by (cases r) auto
    from "1.IH"[OF Ok r refl "1.prems"] have "extractAll inp e = Fault" .
    with Ok r show ?thesis by (subst extractAll.simps) simp
  qed
qed

text \<open>
  C9.  The scan relies on a NUL behind the bytes of the file, and \<^verbatim>\<open>main\<close> does not
  store one: whether the entries of the file are found depends on the byte \<open>u\<close> that
  the block happens to hold behind them.  When no NUL can be read from the start of the
  buffer on, the scan leaves the buffer, whatever the file holds.  When \<open>u\<close> is the NUL,
  the scan stays in the buffer and finds a list of entries \<open>es\<close>, and these are the
  entries of the file: the \<open>n\<close>-th one is the first that begins at or behind the closing
  brace of the entry before it (behind index \<open>0\<close> for the first), its anchor the first
  \<open>@\<close> there, its end the first \<open>}\<close> behind the anchor that has a newline before it and
  a newline or the NUL behind it, with no NUL up to that brace; the brace lies in the
  file, and what is copied is the range from the anchor to the byte behind the brace.
  Behind the last entry no further complete entry begins: an \<open>@\<close> whose closing brace is
  missing yields nothing.
\<close>

theorem extractAll_unterminated:
  assumes "inputContent = readInput file u behind"
  shows "(NUL \<notin> set inputContent \<longrightarrow> extractAll inputContent 0 = Fault)
    \<and> (u = NUL \<longrightarrow>
         (\<exists>es. extractAll inputContent 0 = Ok es
            \<and> (\<forall>n<length es.
                  entryFrom inputContent (if n = 0 then 0 else snd (es ! (n - 1))) (fst (es ! n)) (snd (es ! n))
                  \<and> snd (es ! n) < length file
                  \<and> copyEntry inputContent (fst (es ! n)) (snd (es ! n))
                      = map (\<lambda>j. inputContent ! j) [fst (es ! n)..<snd (es ! n) + 2])
            \<and> \<not> (\<exists>a e. entryFrom inputContent (if es = [] then 0 else snd (last es)) a e)))"
proof (intro conjI impI)
  assume "NUL \<notin> set inputContent"
  then show "extractAll inputContent 0 = Fault"
    by (rule extractAll_unterminated_Fault)
next
  assume u: "u = NUL"
  define z where "z = length file"
  have z: "z < length inputContent" "inputContent ! z = NUL"
    using assms u by (simp_all add: readInput_def z_def nth_append)
  have z0: "0 \<le> z" by simp
  from extractAll_chain[OF z0 z] obtain es where
    es: "extractAll inputContent 0 = Ok es" "chain inputContent 0 es"
        "\<not> (\<exists>a e. entryFrom inputContent (if es = [] then 0 else snd (last es)) a e)"
    by blast
  have "entryFrom inputContent (if n = 0 then 0 else snd (es ! (n - 1))) (fst (es ! n)) (snd (es ! n))
      \<and> snd (es ! n) < length file
      \<and> copyEntry inputContent (fst (es ! n)) (snd (es ! n))
          = map (\<lambda>j. inputContent ! j) [fst (es ! n)..<snd (es ! n) + 2]"
    if n: "n < length es" for n
  proof -
    have ef: "entryFrom inputContent (if n = 0 then 0 else snd (es ! (n - 1))) (fst (es ! n)) (snd (es ! n))"
      using chain_nth[OF es(2) n] .
    then have "fst (es ! n) \<le> snd (es ! n)"
      by (simp add: entryFrom_def)
    moreover have b: "snd (es ! n) < z"
      using chain_before_NUL[OF es(2) z0 z(2) n] .
    moreover have "snd (es ! n) + 1 < length inputContent"
      using b z(1) by simp
    ultimately show ?thesis
      using ef copyEntry_range z_def by blast
  qed
  with es(1,3) show "\<exists>es. extractAll inputContent 0 = Ok es
            \<and> (\<forall>n<length es.
                  entryFrom inputContent (if n = 0 then 0 else snd (es ! (n - 1))) (fst (es ! n)) (snd (es ! n))
                  \<and> snd (es ! n) < length file
                  \<and> copyEntry inputContent (fst (es ! n)) (snd (es ! n))
                      = map (\<lambda>j. inputContent ! j) [fst (es ! n)..<snd (es ! n) + 2])
            \<and> \<not> (\<exists>a e. entryFrom inputContent (if es = [] then 0 else snd (last es)) a e)"
    by blast
qed

theorem extractAll_unterminated_witness:
  "NUL \<notin> set (readInput ''x@a{\<newline>}\<newline>'' (CHR 0xBE) [])
   \<and> nextEntry (readInput ''x@a{\<newline>}\<newline>'' (CHR 0xBE) []) 0 = Ok (Some (1, 5))
   \<and> extractAll (readInput ''x@a{\<newline>}\<newline>'' (CHR 0xBE) []) 0 = Fault
   \<and> extractAll (readInput ''x@a{\<newline>}\<newline>@b{\<newline>}y\<newline>}\<newline>@c{\<newline>'' NUL ''@d'') 0 = Ok [(1, 5), (7, 14)]
   \<and> entryFrom (readInput ''x@a{\<newline>}\<newline>@b{\<newline>}y\<newline>}\<newline>@c{\<newline>'' NUL ''@d'') 0 1 5
   \<and> entryFrom (readInput ''x@a{\<newline>}\<newline>@b{\<newline>}y\<newline>}\<newline>@c{\<newline>'' NUL ''@d'') 5 7 14
   \<and> copyEntry (readInput ''x@a{\<newline>}\<newline>@b{\<newline>}y\<newline>}\<newline>@c{\<newline>'' NUL ''@d'') 7 14 = ''@b{\<newline>}y\<newline>}\<newline>''
   \<and> \<not> (\<exists>a e. entryFrom (readInput ''x@a{\<newline>}\<newline>@b{\<newline>}y\<newline>}\<newline>@c{\<newline>'' NUL ''@d'') 14 a e)"
proof -
  define v where "v = readInput ''x@a{\<newline>}\<newline>'' (CHR 0xBE) []"
  define w where "w = readInput ''x@a{\<newline>}\<newline>@b{\<newline>}y\<newline>}\<newline>@c{\<newline>'' NUL ''@d''"
  have n: "NUL \<notin> set v"
    by (simp add: v_def readInput_def)
  have f: "nextEntry v 0 = Ok (Some (1, 5))"
    unfolding v_def by code_simp
  have F: "extractAll v 0 = Fault"
    using extractAll_unterminated[OF v_def] n by blast
  have r: "extractAll w 0 = Ok [(1, 5), (7, 14)]"
    unfolding w_def by code_simp
  have c: "copyEntry w 7 14 = ''@b{\<newline>}y\<newline>}\<newline>''"
    unfolding w_def by code_simp
  from extractAll_unterminated[OF w_def] r
  have a: "\<forall>n<length [(1::nat, 5::nat), (7, 14)].
          entryFrom w (if n = 0 then 0 else snd ([(1::nat, 5::nat), (7, 14)] ! (n - 1)))
             (fst ([(1::nat, 5::nat), (7, 14)] ! n)) (snd ([(1::nat, 5::nat), (7, 14)] ! n))"
    and b: "\<not> (\<exists>a e. entryFrom w 14 a e)"
    by auto
  from a have "entryFrom w 0 1 5" by force
  moreover from a have "entryFrom w 5 7 14"
    by (auto dest!: spec[of _ 1])
  ultimately have "NUL \<notin> set v \<and> nextEntry v 0 = Ok (Some (1, 5)) \<and> extractAll v 0 = Fault
      \<and> extractAll w 0 = Ok [(1, 5), (7, 14)] \<and> entryFrom w 0 1 5 \<and> entryFrom w 5 7 14
      \<and> copyEntry w 7 14 = ''@b{\<newline>}y\<newline>}\<newline>'' \<and> \<not> (\<exists>a e. entryFrom w 14 a e)"
    using n f F r c b by blast
  then show ?thesis unfolding v_def w_def .
qed

text \<open>
  C9, with a NUL that lies further on in memory: the file holds the five bytes of one
  entry; the byte behind them is not a NUL, and the scan goes on into the bytes behind
  the buffer.  The entry that it yields ends at a brace that is not in the file (with a
  NUL behind the file the entry is \<open>(0, 4)\<close>).
\<close>

theorem extractAll_beyond_file_counterexample:
  "extractAll (readInput ''@a{\<newline>}'' (CHR ''X'') (''\<newline>}\<newline>'' @ [NUL])) 0 = Ok [(0, 7)]
   \<and> copyEntry (readInput ''@a{\<newline>}'' (CHR ''X'') (''\<newline>}\<newline>'' @ [NUL])) 0 7 = ''@a{\<newline>}X\<newline>}\<newline>''
   \<and> extractAll (readInput ''@a{\<newline>}'' NUL (''\<newline>}\<newline>'' @ [NUL])) 0 = Ok [(0, 4)]"
  by code_simp

section \<open>The field rewriter: one turn of the loop, and runs over quiet text\<close>

lemma ulong_nat: "0 \<le> x \<Longrightarrow> x < ULONG_RANGE \<Longrightarrow> ulong x = nat x"
  by (simp add: ulong_def)

lemma strncmp0_cstr:
  assumes "NUL \<notin> set lit" "i \<le> length s"
  shows "strncmp0 (s @ NUL # z) i lit = Ok (take (length lit) (drop i s) = lit)"
  using assms
proof (induction lit arbitrary: i)
  case Nil
  then show ?case by (simp add: strncmp0.simps)
next
  case (Cons c cs)
  show ?case
  proof (cases "i = length s")
    case True
    with Cons.prems show ?thesis
      by (auto simp: strncmp0.simps rd_def)
  next
    case False
    with Cons.prems have lt: "i < length s" by simp
    then have d: "drop i s = s ! i # drop (Suc i) s"
      by (simp add: Cons_nth_drop_Suc)
    have "Suc i \<le> length s" using lt by simp
    with Cons have ih: "strncmp0 (s @ NUL # z) (Suc i) cs = Ok (take (length cs) (drop (Suc i) s) = cs)"
      by simp
    show ?thesis
      using lt d ih by (auto simp: strncmp0.simps rd_def nth_append)
  qed
qed

lemma strncmp0_line:
  assumes "NUL \<notin> set lit" "p < length s" "s ! p = NL"
  shows "strncmp0 (s @ NUL # z) (p + 1) lit = Ok (lineAt s p lit)"
  using assms strncmp0_cstr[of lit "p + 1" s z] by (simp add: lineAt_def)

lemma lineAt_hd:
  assumes "lineAt s p (c # cs)"
  shows "Suc p < length s \<and> s ! Suc p = c"
proof (cases "drop (Suc p) s")
  case Nil
  with assms show ?thesis by (simp add: lineAt_def)
next
  case (Cons x xs)
  then have "Suc p < length s"
    by (cases "Suc p < length s") auto
  moreover from this Cons have "s ! Suc p = x"
    by (metis hd_drop_conv_nth list.sel(1))
  moreover have "x = c"
    using assms Cons by (simp add: lineAt_def)
  ultimately show ?thesis by simp
qed

lemma lineAt_distinct:
  "lineAt s p (c # cs) \<Longrightarrow> lineAt s p (d # ds) \<Longrightarrow> c = d"
  by (auto dest!: lineAt_hd)

lemma fixLine_quiet:
  assumes b: "buf st s g z" and p: "curBibInd st = p" "p < length s" "s ! p = NL"
    and q: "\<not> fixable cfg bUrl (has_doi st) s p" and r: "monthRoom s g p"
  shows "\<exists>st'. fixLine cfg bUrl st = Ok st' \<and> curBibEntry st' = curBibEntry st
           \<and> curBibLength st' = curBibLength st \<and> curBibInd st' = p
           \<and> has_doi st' = (has_doi st \<or> lineAt s p ''doi ='')"
proof -
  have m: "curBibEntry st = s @ NUL # z" using b by (simp add: buf_def)
  have t: "strncmp0 (curBibEntry st) (Suc p) lit = Ok (lineAt s p lit)" if "NUL \<notin> set lit" for lit
    using strncmp0_line[OF that p(2,3)] m by simp
  have nT: "\<not> lineAt s p ''title =''" and nF: "\<not> lineAt s p ''file =''"
    and nA: "keep_annote cfg \<or> \<not> lineAt s p ''annote =''"
    and nB: "keep_abstract cfg \<or> \<not> lineAt s p ''abstract =''"
    and nU: "lineAt s p ''url ='' \<Longrightarrow> bUrl \<and> \<not> (keep_url_only_if_no_doi cfg \<and> has_doi st)"
    using q by (auto simp: fixable_def)
  have ann: "annoteOrAbstract cfg (curBibEntry st) p = Ok False"
    using nA nB by (auto simp: annoteOrAbstract_def t)
  show ?thesis
  proof (cases "lineAt s p ''month =''")
    case True
    with r have r9: "p + 9 < length s" and r13: "s ! (p + 9) = CHR ''{'' \<Longrightarrow> p + 13 \<le> length s + g"
      by (auto simp: monthRoom_def)
    have "fixMonth st = Ok st"
    proof (cases "s ! (p + 9) = CHR ''{''")
      case False
      with r9 show ?thesis
        by (simp add: fixMonth_def m p rd_def nth_append)
    next
      case br: True
      with r13 have le: "p + 13 \<le> length s + g" by simp
      have g: "g = 0 \<or> g = 1 \<and> take 1 z = [NUL]"
        using b by (simp add: buf_def)
      have "p + 13 < length s \<or> p + 13 = length s \<or> (p + 13 = length s + 1 \<and> g = 1)"
        using le g by auto
      then have "p + 13 < length (s @ NUL # z) \<and> (s @ NUL # z) ! (p + 13) \<noteq> CHR ''}''"
      proof (elim disjE)
        assume lt: "p + 13 < length s"
        with q True br r9 have "s ! (p + 13) \<noteq> CHR ''}''"
          by (auto simp: fixable_def byteAt_def)
        with lt show ?thesis by (simp add: nth_append)
      next
        assume "p + 13 = length s"
        then show ?thesis by (simp add: nth_append)
      next
        assume a: "p + 13 = length s + 1 \<and> g = 1"
        with g obtain z' where "z = NUL # z'"
          by (cases z) auto
        with a show ?thesis by (simp add: nth_append)
      qed
      with r9 br show ?thesis
        by (simp add: fixMonth_def m p rd_def nth_append)
    qed
    moreover have "\<not> lineAt s p ''doi =''"
      using True by (auto dest: lineAt_distinct)
    ultimately show ?thesis
      using True by (simp add: fixLine_def Let_def p t)
  next
    case False
    then show ?thesis
      using nT nF nU ann by (auto simp: fixLine_def Let_def p t)
  qed
qed

lemma escapes_no_NUL: "NUL \<notin> set escOpen" "NUL \<notin> set escClose"
  by (simp_all add: escOpen_def escClose_def)

lemma escapes_length: "length escOpen = 4" "length escClose = 4"
  by (simp_all add: escOpen_def escClose_def)

lemma fixBrace_quiet:
  assumes b: "buf st s g z" and p: "curBibInd st = p" "p < length s"
    and q: "\<not> fixable cfg bUrl h s p"
  shows "fixBrace st = Ok st"
proof -
  have m: "curBibEntry st = s @ NUL # z" using b by (simp add: buf_def)
  have "strncmp0 (curBibEntry st) p escOpen = Ok False"
    using strncmp0_cstr[OF escapes_no_NUL(1), of p s z] p q
    by (simp add: m fixable_def escapes_length)
  moreover have "strncmp0 (curBibEntry st) p escClose = Ok False"
    using strncmp0_cstr[OF escapes_no_NUL(2), of p s z] p q
    by (simp add: m fixable_def escapes_length)
  ultimately show ?thesis
    by (simp add: fixBrace_def Let_def p)
qed

lemma fixStep_quiet:
  assumes b: "buf st s g z" and p: "curBibInd st = p" "p < length s"
    and q: "\<not> fixable cfg bUrl (has_doi st) s p" and r: "monthRoom s g p"
  shows "\<exists>st'. fixStep cfg bUrl st = Ok st' \<and> buf st' s g z \<and> curBibInd st' = p + 1
           \<and> has_doi st' = (has_doi st \<or> lineAt s p ''doi ='')"
proof -
  have m: "curBibEntry st ! p = s ! p"
    using b p by (simp add: buf_def nth_append)
  show ?thesis
  proof (cases "s ! p = NL")
    case True
    from fixLine_quiet[OF b p True q r] obtain st1 where
      st1: "fixLine cfg bUrl st = Ok st1" "curBibEntry st1 = curBibEntry st"
        "curBibLength st1 = curBibLength st" "curBibInd st1 = p"
        "has_doi st1 = (has_doi st \<or> lineAt s p ''doi ='')"
      by blast
    have "fixStep cfg bUrl st = Ok (st1\<lparr>curBibInd := curBibInd st1 + 1\<rparr>)"
      using True m p st1 by (simp add: fixStep_def)
    moreover have "buf (st1\<lparr>curBibInd := curBibInd st1 + 1\<rparr>) s g z"
      using b st1 by (simp add: buf_def)
    ultimately show ?thesis using st1 by simp
  next
    case False
    then have "\<not> lineAt s p ''doi =''"
      by (simp add: lineAt_def)
    moreover have "fixStep cfg bUrl st = Ok (st\<lparr>curBibInd := p + 1\<rparr>)"
      using False m p fixBrace_quiet[OF b p q] by (simp add: fixStep_def)
    moreover have "buf (st\<lparr>curBibInd := p + 1\<rparr>) s g z"
      using b by (simp add: buf_def)
    ultimately show ?thesis by simp
  qed
qed

lemma doiSeen_step:
  "p < q \<Longrightarrow> doiSeen s p q = (lineAt s p ''doi ='' \<or> doiSeen s (Suc p) q)"
  unfolding doiSeen_def
proof
  assume "p < q" and "\<exists>k\<in>{p..<q}. lineAt s k ''doi =''"
  then obtain k where k: "p \<le> k" "k < q" "lineAt s k ''doi =''" by auto
  show "lineAt s p ''doi ='' \<or> (\<exists>k\<in>{Suc p..<q}. lineAt s k ''doi ='')"
  proof (cases "k = p")
    case True with k show ?thesis by simp
  next
    case False with k show ?thesis by auto
  qed
next
  assume "p < q" and "lineAt s p ''doi ='' \<or> (\<exists>k\<in>{Suc p..<q}. lineAt s k ''doi ='')"
  then show "\<exists>k\<in>{p..<q}. lineAt s k ''doi =''"
    by auto
qed

lemma doiSeen_empty: "doiSeen s p p = False"
  by (simp add: doiSeen_def)

lemma fixLoop_next:
  assumes "buf st s g z" "curBibInd st = p" "p < length s" "fixStep cfg bUrl st = Ok st'"
  shows "fixLoop cfg bUrl st = fixLoop cfg bUrl st'"
proof -
  have "NUL \<notin> set s"
    using assms(1) by (simp add: buf_def)
  then have "s ! p \<noteq> NUL"
    using assms(3) nth_mem by metis
  moreover have "rd (curBibEntry st) (curBibInd st) = Ok (s ! p)"
    using assms by (auto simp: buf_def rd_def nth_append)
  ultimately show ?thesis using assms(4)
    by (subst fixLoop.simps) simp
qed

lemma fixLoop_end:
  assumes "buf st s g z" "curBibInd st = length s"
  shows "fixLoop cfg bUrl st = Some (Ok st)"
proof -
  have "rd (curBibEntry st) (curBibInd st) = Ok NUL"
    using assms by (auto simp: buf_def rd_def nth_append)
  then show ?thesis
    by (subst fixLoop.simps) simp
qed

lemma fixLoop_quiet:
  assumes "buf st s g z" "curBibInd st = p" "p \<le> j" "j \<le> length s"
    and "\<forall>q. p \<le> q \<and> q < j \<longrightarrow> \<not> fixable cfg bUrl (has_doi st \<or> doiSeen s p q) s q \<and> monthRoom s g q"
  shows "\<exists>st'. fixLoop cfg bUrl st = fixLoop cfg bUrl st' \<and> buf st' s g z \<and> curBibInd st' = j
           \<and> has_doi st' = (has_doi st \<or> doiSeen s p j)"
  using assms
proof (induction "j - p" arbitrary: st p)
  case 0
  then have "p = j" by simp
  with 0 show ?case by (auto simp: doiSeen_empty)
next
  case (Suc n)
  then have pj: "p < j" "p < length s" by simp_all
  from Suc.prems(5) pj have q0: "\<not> fixable cfg bUrl (has_doi st) s p" "monthRoom s g p"
    by (auto simp: doiSeen_empty dest!: spec[of _ p])
  from fixStep_quiet[OF Suc.prems(1,2) pj(2) q0] obtain st1 where
    st1: "fixStep cfg bUrl st = Ok st1" "buf st1 s g z" "curBibInd st1 = p + 1"
      "has_doi st1 = (has_doi st \<or> lineAt s p ''doi ='')"
    by blast
  have n: "n = j - (p + 1)" "p + 1 \<le> j" using Suc.hyps(2) pj by simp_all
  have "\<not> fixable cfg bUrl (has_doi st1 \<or> doiSeen s (p + 1) q) s q \<and> monthRoom s g q"
    if q: "p + 1 \<le> q \<and> q < j" for q
  proof -
    have "(has_doi st1 \<or> doiSeen s (p + 1) q) = (has_doi st \<or> doiSeen s p q)"
      using st1(4) q doiSeen_step[of p q s] by auto
    moreover have "p \<le> q \<and> q < j" using q by simp
    ultimately show ?thesis using Suc.prems(5) by simp
  qed
  then have "\<forall>q. p + 1 \<le> q \<and> q < j \<longrightarrow>
      \<not> fixable cfg bUrl (has_doi st1 \<or> doiSeen s (p + 1) q) s q \<and> monthRoom s g q"
    by blast
  from Suc.hyps(1)[OF n(1) st1(2,3) n(2) Suc.prems(4) this] obtain st' where
    st': "fixLoop cfg bUrl st1 = fixLoop cfg bUrl st'" "buf st' s g z" "curBibInd st' = j"
      "has_doi st' = (has_doi st1 \<or> doiSeen s (p + 1) j)"
    by blast
  have "fixLoop cfg bUrl st = fixLoop cfg bUrl st1"
    using fixLoop_next[OF Suc.prems(1,2) pj(2) st1(1)] .
  moreover have "has_doi st' = (has_doi st \<or> doiSeen s p j)"
    using st'(4) st1(4) doiSeen_step[OF pj(1), of s] by auto
  ultimately show ?case using st' by auto
qed

lemma bibTypeScan_run:
  assumes "CHR ''{'' \<notin> set ty" "length pre \<le> BIB_TYPE_MAX"
  shows "bibTypeScan (pre @ ty @ CHR ''{'' # rest) (length pre) acc
    = Ok (min (length pre + length ty) BIB_TYPE_MAX, acc @ take (BIB_TYPE_MAX - length pre) ty)"
  using assms
proof (induction ty arbitrary: pre acc)
  case Nil
  then show ?case
    by (subst bibTypeScan.simps) (simp add: rd_def)
next
  case (Cons c cs)
  show ?case
  proof (cases "length pre < BIB_TYPE_MAX")
    case True
    have "bibTypeScan ((pre @ [c]) @ cs @ CHR ''{'' # rest) (length (pre @ [c])) (acc @ [c])
        = Ok (min (length (pre @ [c]) + length cs) BIB_TYPE_MAX,
              (acc @ [c]) @ take (BIB_TYPE_MAX - length (pre @ [c])) cs)"
      using Cons.prems True by (intro Cons.IH) auto
    moreover have "bibTypeScan (pre @ (c # cs) @ CHR ''{'' # rest) (length pre) acc
        = bibTypeScan (pre @ (c # cs) @ CHR ''{'' # rest) (length pre + 1) (acc @ [c])"
      using Cons.prems True by (subst bibTypeScan.simps) (auto simp: rd_def)
    moreover have "take (BIB_TYPE_MAX - length pre) (c # cs) = c # take (BIB_TYPE_MAX - length (pre @ [c])) cs"
    proof -
      have "BIB_TYPE_MAX - length pre = Suc (BIB_TYPE_MAX - length (pre @ [c]))"
        using True by simp
      then show ?thesis by simp
    qed
    ultimately show ?thesis by simp
  next
    case False
    then have l: "length pre = BIB_TYPE_MAX" using Cons.prems by simp
    then have "bibTypeScan (pre @ (c # cs) @ CHR ''{'' # rest) (length pre) acc = Ok (length pre, acc)"
      by (subst bibTypeScan.simps) (simp add: rd_def)
    with l show ?thesis by simp
  qed
qed

lemma bibTypeScan_type:
  assumes "CHR ''{'' \<notin> set ty"
  shows "bibTypeScan (CHR ''@'' # ty @ CHR ''{'' # rest) 1 [] = Ok (typeEnd ty, typeRead ty)"
  using bibTypeScan_run[of ty "[CHR ''@'']" rest "[]"] assms
  by (simp add: typeEnd_def typeRead_def BIB_TYPE_MAX_def)

lemma typeEnd_le: "typeEnd ty \<le> length ty + 1"
  by (simp add: typeEnd_def)

lemma memmove_shift:
  assumes "m = xs @ del @ ys @ zs" "dst = length xs" "src = length xs + length del" "n = length ys"
  shows "\<exists>stale. length stale = length del \<and> memmove m dst src n = Ok (xs @ ys @ stale @ zs)"
proof -
  have "memmove m dst src n = Ok (xs @ ys @ drop (length ys) (del @ ys) @ zs)"
    using assms by (simp add: memmove_def)
  moreover have "length (drop (length ys) (del @ ys)) = length del"
    by simp
  ultimately show ?thesis by blast
qed

lemma findEndOfLine_found:
  assumes "NL \<notin> set ys" "i = length xs"
  shows "findEndOfLine (xs @ ys @ NL # zs) i = Ok (length xs + length ys)"
  using assms
proof (induction ys arbitrary: xs i)
  case Nil
  then show ?case
    by (subst findEndOfLine.simps) simp
next
  case (Cons y ys)
  have "findEndOfLine ((xs @ [y]) @ ys @ NL # zs) (length (xs @ [y])) = Ok (length (xs @ [y]) + length ys)"
    using Cons.prems by (intro Cons.IH) auto
  moreover have "findEndOfLine (xs @ (y # ys) @ NL # zs) i = findEndOfLine (xs @ (y # ys) @ NL # zs) (i + 1)"
    using Cons.prems by (subst findEndOfLine.simps) (auto simp: nth_append)
  ultimately show ?case using Cons.prems by simp
qed

text \<open>The erase move on a well-formed buffer.\<close>

lemma eraseTo_buf:
  assumes b: "buf st (pre @ NL # del @ rest) g z" and p: "curBibInd st = length pre" "0 < length pre"
    and gz: "g < length z"
  shows "\<exists>st' z'. eraseTo st (length pre + length del) = Ok st' \<and> buf st' (pre @ NL # rest) g z'
           \<and> g < length z' \<and> curBibInd st' = length pre - 1 \<and> has_doi st' = has_doi st"
proof -
  let ?s = "pre @ NL # del @ rest"
  let ?ys = "rest @ NUL # take (g + 1) z"
  have m: "curBibEntry st = ?s @ NUL # z" and L: "curBibLength st = length ?s + g"
    and nz: "NUL \<notin> set ?s" and g: "g = 0 \<or> g = 1 \<and> take 1 z = [NUL]"
    and sz: "int (length ?s + 1 + length z) < ULONG_RANGE"
    using b by (simp_all add: buf_def)
  have n: "ulong (int (curBibLength st) - int (length pre + length del) + 1) = length ?ys"
    using gz sz by (subst ulong_nat) (auto simp: L)
  have "curBibEntry st = (pre @ [NL]) @ del @ ?ys @ drop (g + 1) z"
    using gz by (simp add: m)
  from memmove_shift[OF this, of "length pre + 1" "length pre + length del + 1" "length ?ys"]
  obtain stale where stale: "length stale = length del"
    "memmove (curBibEntry st) (length pre + 1) (length pre + length del + 1) (length ?ys)
      = Ok ((pre @ [NL]) @ ?ys @ stale @ drop (g + 1) z)"
    by auto
  have L': "ulong (int (curBibLength st) - (int (length pre + length del) - int (length pre))) = length (pre @ NL # rest) + g"
    using sz gz by (subst ulong_nat) (auto simp: L)
  have c: "ulong (int (length pre) - 1) = length pre - 1"
    using p(2) sz by (subst ulong_nat) auto
  define z' where "z' = take (g + 1) z @ stale @ drop (g + 1) z"
  define st' where "st' = st\<lparr>curBibEntry := (pre @ NL # rest) @ NUL # z',
       curBibLength := length (pre @ NL # rest) + g, curBibInd := length pre - 1\<rparr>"
  have "eraseTo st (length pre + length del) = Ok st'"
    using stale(2) n L' c by (simp add: eraseTo_def Let_def p st'_def z'_def)
  moreover have "take 1 z' = take 1 z"
    using gz by (cases z) (auto simp: z'_def)
  moreover have lz: "length z' = length z + length del"
    using gz stale(1) by (simp add: z'_def)
  ultimately have "eraseTo st (length pre + length del) = Ok st' \<and> buf st' (pre @ NL # rest) g z'
      \<and> g < length z' \<and> curBibInd st' = length pre - 1 \<and> has_doi st' = has_doi st"
    using nz g sz gz by (auto simp: buf_def st'_def)
  then show ?thesis by blast
qed

lemma eraseLine_buf:
  assumes b: "buf st (pre @ NL # line @ NL # rest) g z" and p: "curBibInd st = length pre" "0 < length pre"
    and gz: "g < length z" and nl: "NL \<notin> set line"
  shows "\<exists>st' z'. eraseLine st = Ok st' \<and> buf st' (pre @ NL # rest) g z'
           \<and> g < length z' \<and> curBibInd st' = length pre - 1 \<and> has_doi st' = has_doi st"
proof -
  have m: "curBibEntry st = (pre @ [NL]) @ line @ NL # (rest @ NUL # z)"
    using b by (simp add: buf_def)
  have "findEndOfLine (curBibEntry st) (curBibInd st + 1) = Ok (length (pre @ [NL]) + length line)"
    unfolding m by (rule findEndOfLine_found[OF nl]) (simp add: p)
  then have e: "eraseLine st = eraseTo st (length pre + length (line @ [NL]))"
    by (simp add: eraseLine_def)
  have "buf st (pre @ NL # (line @ [NL]) @ rest) g z"
    using b by simp
  from eraseTo_buf[OF this p gz] e show ?thesis by simp
qed

lemma terminatorAt_window:
  assumes "k + 3 \<le> length xs"
  shows "terminatorAt (xs @ ys) k = terminatorAt xs k"
  using assms by (simp add: terminatorAt_def)

lemma terminatorAt_shift:
  "terminatorAt (xs @ ys) (length xs + k) = terminatorAt ys k"
  by (simp add: terminatorAt_def)

lemma eraseField_buf:
  assumes b: "buf st (pre @ NL # fld @ ''},\<newline>'' @ rest) g z"
    and p: "curBibInd st = length pre" "0 < length pre"
    and gz: "g < length z" and f: "fld \<noteq> []"
    and first: "\<not> (\<exists>j<length fld. terminatorAt (fld @ ''},\<newline>'') j)"
  shows "\<exists>st' z'. eraseField st = Ok st' \<and> buf st' (pre @ NL # rest) g z'
           \<and> g < length z' \<and> curBibInd st' = length pre - 1 \<and> has_doi st' = has_doi st"
proof -
  let ?m = "curBibEntry st"
  let ?F = "fld @ ''},\<newline>''"
  have m: "?m = (pre @ [NL]) @ ?F @ (rest @ NUL # z)"
    using b by (simp add: buf_def)
  have t: "terminatorAt ?m (length (pre @ [NL]) + length fld)"
    unfolding m terminatorAt_shift by (simp add: terminatorAt_def)
  have nt: "\<not> terminatorAt ?m k" if k: "length pre + 1 < k \<and> k < length pre + 1 + length fld" for k
  proof -
    define j where "j = k - (length pre + 1)"
    have j: "k = length (pre @ [NL]) + j" "j < length fld" using k by (auto simp: j_def)
    have "terminatorAt ?m k = terminatorAt (?F @ (rest @ NUL # z)) j"
      unfolding m j(1) terminatorAt_shift ..
    also have "\<dots> = terminatorAt ?F j"
      using j(2) by (intro terminatorAt_window) simp
    finally show ?thesis using first j(2) by blast
  qed
  have "findEndOfField ?m (length pre + 1) = Ok (length pre + length (?F))"
    unfolding findEndOfField_Ok_iff
  proof (intro conjI allI impI)
    show "length pre + 1 + 3 \<le> length pre + length ?F"
      using f by (cases fld) simp_all
    have "length pre + length ?F - 2 = length (pre @ [NL]) + length fld"
      by simp
    then show "terminatorAt ?m (length pre + length ?F - 2)"
      using t by simp
    fix k assume "length pre + 1 < k \<and> k < length pre + length ?F - 2"
    then have "length pre + 1 < k \<and> k < length pre + 1 + length fld" by simp
    then show "\<not> terminatorAt ?m k" by (rule nt)
  qed
  then have e: "eraseField st = eraseTo st (length pre + length ?F)"
    by (simp add: eraseField_def p)
  have "buf st (pre @ NL # ?F @ rest) g z"
    using b by simp
  from eraseTo_buf[OF this p gz] e show ?thesis by simp
qed

lemma lineAt_here:
  "lineAt (pre @ NL # lit @ xs) (length pre) lit"
  by (simp add: lineAt_def)

lemma lineAt_second:
  assumes "lineAt s p (c # c2 # cs)"
  shows "s ! (p + 2) = c2"
proof -
  have "take (Suc (Suc (length cs))) (drop (Suc p) s) = c # c2 # cs"
    using assms by (simp add: lineAt_def)
  then have "take (Suc (Suc (length cs))) (drop (Suc p) s) ! 1 = c2" by simp
  moreover have "1 < length (take (Suc (Suc (length cs))) (drop (Suc p) s))"
    using \<open>take (Suc (Suc (length cs))) (drop (Suc p) s) = c # c2 # cs\<close> by simp
  ultimately show ?thesis by simp
qed

lemma fixStep_url:
  assumes b: "buf st (pre @ NL # (''url ='' @ u) @ NL # rest) g z"
    and p: "curBibInd st = length pre" "0 < length pre"
    and gz: "g < length z" and nl: "NL \<notin> set u"
    and c: "\<not> bUrl \<or> (keep_url_only_if_no_doi cfg \<and> has_doi st)"
  shows "\<exists>st' z'. fixStep cfg bUrl st = Ok st' \<and> buf st' (pre @ NL # rest) g z'
           \<and> g < length z' \<and> curBibInd st' = length pre \<and> has_doi st' = has_doi st"
proof -
  let ?s = "pre @ NL # (''url ='' @ u) @ NL # rest"
  let ?p = "length pre"
  have m: "curBibEntry st = ?s @ NUL # z" using b by (simp add: buf_def)
  have pl: "?p < length ?s" "?s ! ?p = NL" by (simp_all add: nth_append)
  have t: "strncmp0 (curBibEntry st) (Suc ?p) lit = Ok (lineAt ?s ?p lit)" if "NUL \<notin> set lit" for lit
    using strncmp0_line[OF that pl] m by simp
  have u: "lineAt ?s ?p ''url =''"
    using lineAt_here[of pre "''url =''" "u @ NL # rest"] by simp
  have n: "\<not> lineAt ?s ?p ''month =''" "\<not> lineAt ?s ?p ''title =''" "\<not> lineAt ?s ?p ''annote =''"
    "\<not> lineAt ?s ?p ''abstract =''" "\<not> lineAt ?s ?p ''doi =''" "\<not> lineAt ?s ?p ''file =''"
    using lineAt_distinct[OF u] by fastforce+
  have "fixLine cfg bUrl st = eraseLine st"
    using u n c by (auto simp: fixLine_def Let_def p t annoteOrAbstract_def)
  moreover have "NL \<notin> set (''url ='' @ u)" using nl by simp
  from eraseLine_buf[OF b p gz this] obtain st1 z' where
    "eraseLine st = Ok st1" "buf st1 (pre @ NL # rest) g z'" "g < length z'"
    "curBibInd st1 = length pre - 1" "has_doi st1 = has_doi st"
    by blast
  moreover have "curBibEntry st ! ?p = NL"
    using m pl by (simp add: nth_append)
  ultimately have "fixStep cfg bUrl st = Ok (st1\<lparr>curBibInd := ?p\<rparr>) \<and> buf (st1\<lparr>curBibInd := ?p\<rparr>) (pre @ NL # rest) g z'
      \<and> g < length z' \<and> curBibInd (st1\<lparr>curBibInd := ?p\<rparr>) = ?p \<and> has_doi (st1\<lparr>curBibInd := ?p\<rparr>) = has_doi st"
    using p by (simp add: fixStep_def buf_def)
  then show ?thesis by blast
qed

lemma fixStep_field:
  assumes b: "buf st (pre @ NL # (name @ body) @ ''},\<newline>'' @ rest) g z"
    and p: "curBibInd st = length pre" "0 < length pre"
    and gz: "g < length z"
    and name: "name = ''annote ='' \<and> \<not> keep_annote cfg \<or> name = ''abstract ='' \<and> \<not> keep_abstract cfg"
    and first: "\<not> (\<exists>j<length (name @ body). terminatorAt ((name @ body) @ ''},\<newline>'') j)"
  shows "\<exists>st' z'. fixStep cfg bUrl st = Ok st' \<and> buf st' (pre @ NL # rest) g z'
           \<and> g < length z' \<and> curBibInd st' = length pre \<and> has_doi st' = has_doi st"
proof -
  let ?s = "pre @ NL # (name @ body) @ ''},\<newline>'' @ rest"
  let ?p = "length pre"
  have m: "curBibEntry st = ?s @ NUL # z" using b by (simp add: buf_def)
  have pl: "?p < length ?s" "?s ! ?p = NL" by (simp_all add: nth_append)
  have t: "strncmp0 (curBibEntry st) (Suc ?p) lit = Ok (lineAt ?s ?p lit)" if "NUL \<notin> set lit" for lit
    using strncmp0_line[OF that pl] m by simp
  have u: "lineAt ?s ?p name"
    using lineAt_here[of pre name "body @ ''},\<newline>'' @ rest"] by simp
  have "name = CHR ''a'' # tl name" using name by auto
  with u have u': "lineAt ?s ?p (CHR ''a'' # tl name)" by simp
  have n: "\<not> lineAt ?s ?p ''month =''" "\<not> lineAt ?s ?p ''title =''"
    using lineAt_distinct[OF _ u'] by fastforce+
  have "annoteOrAbstract cfg (curBibEntry st) ?p = Ok True"
  proof (cases "name = ''annote ='' \<and> \<not> keep_annote cfg")
    case True
    with u show ?thesis by (simp add: annoteOrAbstract_def t)
  next
    case False
    with name have ab: "name = ''abstract =''" "\<not> keep_abstract cfg" by auto
    have "\<not> lineAt ?s ?p ''annote =''"
    proof
      assume "lineAt ?s ?p ''annote =''"
      then have "?s ! (?p + 2) = CHR ''n''" by (rule lineAt_second)
      moreover have "?s ! (?p + 2) = CHR ''b''"
        using u ab by (intro lineAt_second[of ?s ?p "CHR ''a''" _ "''stract =''"]) simp
      ultimately show False by simp
    qed
    with u ab show ?thesis by (simp add: annoteOrAbstract_def t)
  qed
  then have "fixLine cfg bUrl st = eraseField st"
    using n by (simp add: fixLine_def Let_def p t)
  moreover have "name @ body \<noteq> []" using name by auto
  from eraseField_buf[OF b p gz this first] obtain st1 z' where
    "eraseField st = Ok st1" "buf st1 (pre @ NL # rest) g z'" "g < length z'"
    "curBibInd st1 = length pre - 1" "has_doi st1 = has_doi st"
    by blast
  moreover have "curBibEntry st ! ?p = NL"
    using m pl by (simp add: nth_append)
  ultimately have "fixStep cfg bUrl st = Ok (st1\<lparr>curBibInd := ?p\<rparr>) \<and> buf (st1\<lparr>curBibInd := ?p\<rparr>) (pre @ NL # rest) g z'
      \<and> g < length z' \<and> curBibInd (st1\<lparr>curBibInd := ?p\<rparr>) = ?p \<and> has_doi (st1\<lparr>curBibInd := ?p\<rparr>) = has_doi st"
    using p by (simp add: fixStep_def buf_def)
  then show ?thesis by blast
qed

lemma fixTitle_buf:
  assumes b: "buf st (pre @ NL # ''title ='' @ c8 # c9 # c10 # mid @ x # y # NL # rest) g z"
    and p: "curBibInd st = length pre"
    and nl: "NL \<notin> set (c8 # c9 # c10 # mid @ [x, y])"
  shows "\<exists>st' z'. fixTitle st = Ok st'
           \<and> buf st' (pre @ NL # ''title ='' @ c8 # c9 # mid @ y # NL # rest) g z'
           \<and> length z' = length z + 2 \<and> curBibInd st' = length pre \<and> has_doi st' = has_doi st"
proof -
  let ?s = "pre @ NL # ''title ='' @ c8 # c9 # c10 # mid @ x # y # NL # rest"
  let ?s' = "pre @ NL # ''title ='' @ c8 # c9 # mid @ y # NL # rest"
  let ?p = "length pre"
  let ?e = "?p + 13 + length mid"
  have m: "curBibEntry st = ?s @ NUL # z" and L: "curBibLength st = length ?s + g"
    and nz: "NUL \<notin> set ?s" and g: "g = 0 \<or> g = 1 \<and> take 1 z = [NUL]"
    and sz: "int (length ?s + 1 + length z) < ULONG_RANGE"
    using b by (simp_all add: buf_def)
  have gz: "g \<le> length z" using g by (cases z) auto
  have nl': "NL \<notin> set (''title ='' @ c8 # c9 # c10 # mid @ [x, y])"
    using nl by simp
  have "findEndOfLine ((pre @ [NL]) @ (''title ='' @ c8 # c9 # c10 # mid @ [x, y]) @ NL # (rest @ NUL # z)) (?p + 1)
      = Ok (length (pre @ [NL]) + length (''title ='' @ c8 # c9 # c10 # mid @ [x, y]))"
    by (rule findEndOfLine_found[OF nl']) simp
  then have eol: "findEndOfLine (curBibEntry st) (?p + 1) = Ok ?e"
    by (simp add: m)
  have n1: "ulong (int ?e - int ?p - 13) = length mid"
    using sz by (subst ulong_nat) auto
  have "curBibEntry st = (pre @ NL # ''title ='' @ [c8, c9]) @ [c10] @ mid @ (x # y # NL # rest @ NUL # z)"
    by (simp add: m)
  from memmove_shift[OF this, of "?p + 10" "?p + 11" "length mid"]
  obtain stale1 where s1: "length stale1 = 1"
    "memmove (curBibEntry st) (?p + 10) (?p + 11) (length mid)
       = Ok ((pre @ NL # ''title ='' @ [c8, c9]) @ mid @ stale1 @ (x # y # NL # rest @ NUL # z))"
    by auto
  let ?m1 = "(pre @ NL # ''title ='' @ [c8, c9]) @ mid @ stale1 @ (x # y # NL # rest @ NUL # z)"
  let ?ys = "y # NL # rest @ NUL # take g z"
  have n2: "ulong (int (curBibLength st) - int ?e + 2) = length ?ys"
    using sz gz by (subst ulong_nat) (auto simp: L)
  have "?m1 = (pre @ NL # ''title ='' @ c8 # c9 # mid) @ (stale1 @ [x]) @ ?ys @ drop g z"
    by simp
  from memmove_shift[OF this, of "?e - 3" "?e - 1" "length ?ys"] s1(1)
  obtain stale2 where s2: "length stale2 = 2"
    "memmove ?m1 (?e - 3) (?e - 1) (length ?ys)
       = Ok ((pre @ NL # ''title ='' @ c8 # c9 # mid) @ ?ys @ stale2 @ drop g z)"
    by (auto simp: numeral_2_eq_2)
  have L': "ulong (int (curBibLength st) - 2) = length ?s' + g"
    using sz gz by (subst ulong_nat) (auto simp: L)
  define z' where "z' = take g z @ stale2 @ drop g z"
  define st' where "st' = st\<lparr>curBibEntry := ?s' @ NUL # z', curBibLength := length ?s' + g\<rparr>"
  have "fixTitle st = Ok st'"
    using eol n1 s1(2) n2 s2(2) L'
    by (simp add: fixTitle_def Let_def p st'_def z'_def del: ulong_def)
  moreover have "take 1 z' = take 1 z" if "g = 1"
    using that g by (cases z) (auto simp: z'_def)
  moreover have "length z' = length z + 2"
    using gz s2(1) by (simp add: z'_def)
  ultimately have "fixTitle st = Ok st' \<and> buf st' ?s' g z'
      \<and> length z' = length z + 2 \<and> curBibInd st' = length pre \<and> has_doi st' = has_doi st"
    using nz g sz p by (auto simp: buf_def st'_def)
  then show ?thesis by blast
qed

lemma fixStep_title:
  assumes b: "buf st (pre @ NL # ''title ='' @ c8 # c9 # c10 # mid @ x # y # NL # rest) g z"
    and p: "curBibInd st = length pre"
    and nl: "NL \<notin> set (c8 # c9 # c10 # mid @ [x, y])"
  shows "\<exists>st' z'. fixStep cfg bUrl st = Ok st'
           \<and> buf st' (pre @ NL # ''title ='' @ c8 # c9 # mid @ y # NL # rest) g z'
           \<and> length z' = length z + 2 \<and> curBibInd st' = length pre + 1 \<and> has_doi st' = has_doi st"
proof -
  let ?s = "pre @ NL # ''title ='' @ c8 # c9 # c10 # mid @ x # y # NL # rest"
  let ?s' = "pre @ NL # ''title ='' @ c8 # c9 # mid @ y # NL # rest"
  let ?p = "length pre"
  have m: "curBibEntry st = ?s @ NUL # z" using b by (simp add: buf_def)
  have pl: "?p < length ?s" "?s ! ?p = NL" by (simp_all add: nth_append)
  have t: "strncmp0 (curBibEntry st) (Suc ?p) lit = Ok (lineAt ?s ?p lit)" if "NUL \<notin> set lit" for lit
    using strncmp0_line[OF that pl] m by simp
  have u: "lineAt ?s ?p ''title =''"
    using lineAt_here[of pre "''title =''" "c8 # c9 # c10 # mid @ x # y # NL # rest"] by simp
  have n: "\<not> lineAt ?s ?p ''month =''"
    using lineAt_distinct[OF u] by fastforce
  have "fixLine cfg bUrl st = fixTitle st"
    using u n by (simp add: fixLine_def Let_def p t)
  moreover from fixTitle_buf[OF b p nl] obtain st1 z' where
    "fixTitle st = Ok st1" "buf st1 ?s' g z'" "length z' = length z + 2"
    "curBibInd st1 = length pre" "has_doi st1 = has_doi st"
    by blast
  moreover have "curBibEntry st ! ?p = NL"
    using m pl by (simp add: nth_append)
  ultimately have "fixStep cfg bUrl st = Ok (st1\<lparr>curBibInd := ?p + 1\<rparr>) \<and> buf (st1\<lparr>curBibInd := ?p + 1\<rparr>) ?s' g z'
      \<and> length z' = length z + 2
      \<and> curBibInd (st1\<lparr>curBibInd := ?p + 1\<rparr>) = ?p + 1 \<and> has_doi (st1\<lparr>curBibInd := ?p + 1\<rparr>) = has_doi st"
    using p by (simp add: fixStep_def buf_def)
  then show ?thesis by blast
qed



lemma lineAt_nth:
  assumes "lineAt s p lit" "k < length lit"
  shows "p + 1 + k < length s \<and> s ! (p + 1 + k) = lit ! k"
proof -
  have t: "take (length lit) (drop (p + 1) s) = lit"
    using assms(1) by (simp add: lineAt_def)
  then have "length (take (length lit) (drop (p + 1) s)) = length lit" by simp
  then have len: "p + 1 + length lit \<le> length s" using assms(2) by simp
  have "lit ! k = take (length lit) (drop (p + 1) s) ! k" using t by simp
  also have "\<dots> = s ! (p + 1 + k)"
    using assms(2) len by simp
  finally show ?thesis using len assms(2) by simp
qed

lemma shape_monthRoom:
  assumes s: "s = x @ NL # CHR ''}'' # nl" and g: "g = 0 \<and> nl = [NL] \<or> g = 1 \<and> nl = []"
  shows "monthRoom s g p"
  unfolding monthRoom_def
proof (intro impI conjI)
  let ?a = "length x"
  assume l: "lineAt s p ''month =''"
  have sa: "s ! ?a = NL" "s ! (?a + 1) = CHR ''}''" and len: "length s + g = ?a + 3"
    using s g by (auto simp: nth_append)
  have w: "p + 1 + k < length s \<and> s ! (p + 1 + k) = ''month ='' ! k" if "k < 7" for k
    using lineAt_nth[OF l, of k] that by simp
  have a8: "p + 8 \<le> ?a"
  proof (rule ccontr)
    assume "\<not> p + 8 \<le> ?a"
    moreover have "p + 7 < length s" using w[of 6] by simp
    ultimately have "?a = p + 1 + 4 \<or> ?a = p + 1 + 5 \<or> ?a = p + 1 + 6
        \<or> (?a + 1 = p + 1 + 6 \<and> g = 0) \<or> ?a + 1 = p + 1 + 5 \<or> ?a + 1 = p + 1 + 4
        \<or> (?a + 2 = p + 1 + 6 \<and> g = 0)"
      using len by arith
    then show False
    proof (elim disjE conjE)
      assume "?a = p + 1 + 4" with w[of 4] sa show False by simp
    next
      assume "?a = p + 1 + 5" with w[of 5] sa show False by simp
    next
      assume "?a = p + 1 + 6" with w[of 6] sa show False by simp
    next
      assume "?a + 1 = p + 1 + 6" with w[of 6] sa show False by simp
    next
      assume "?a + 1 = p + 1 + 5" with w[of 5] sa show False by simp
    next
      assume "?a + 1 = p + 1 + 4" with w[of 4] sa show False by simp
    next
      assume e: "?a + 2 = p + 1 + 6" and "g = 0"
      with g s have "s ! (?a + 2) = NL" by (auto simp: nth_append)
      with w[of 6] e show False by simp
    qed
  qed
  then show "p + 9 < length s" using len g by auto
  assume br: "s ! (p + 9) = CHR ''{''"
  have "p + 9 \<noteq> ?a"
  proof
    assume "p + 9 = ?a"
    with br sa(1) show False by simp
  qed
  moreover have "p + 9 \<noteq> ?a + 1"
  proof
    assume "p + 9 = ?a + 1"
    with br sa(2) show False by simp
  qed
  ultimately have "p + 9 \<noteq> ?a" "p + 9 \<noteq> ?a + 1" by simp_all
  with a8 have "p + 9 < ?a" by arith
  then show "p + 13 \<le> length s + g" using len by arith
qed

lemma fixLoop_quiet_end:
  assumes b: "buf st s g z" and p: "curBibInd st = a" "a \<le> length s"
    and q: "quiet cfg bUrl (has_doi st) s a (length s)"
    and r: "\<forall>p. monthRoom s g p"
  shows "\<exists>st'. fixLoop cfg bUrl st = Some (Ok st') \<and> buf st' s g z"
proof -
  have "\<forall>q. a \<le> q \<and> q < length s \<longrightarrow>
      \<not> fixable cfg bUrl (has_doi st \<or> doiSeen s a q) s q \<and> monthRoom s g q"
    using q r by (auto simp: quiet_def)
  from fixLoop_quiet[OF b p(1) p(2) le_refl this] obtain st' where
    st': "fixLoop cfg bUrl st = fixLoop cfg bUrl st'" "buf st' s g z" "curBibInd st' = length s"
    by blast
  with fixLoop_end[OF st'(2,3)] show ?thesis by auto
qed

lemma fixLoop_quiet_to:
  assumes b: "buf st s g z" and p: "curBibInd st = a" "a \<le> d" "d \<le> length s"
    and q: "quiet cfg bUrl (has_doi st) s a d"
    and r: "\<forall>p. monthRoom s g p"
  shows "\<exists>st'. fixLoop cfg bUrl st = fixLoop cfg bUrl st' \<and> buf st' s g z \<and> curBibInd st' = d
           \<and> has_doi st' = (has_doi st \<or> doiSeen s a d)"
proof -
  have "\<forall>q. a \<le> q \<and> q < d \<longrightarrow>
      \<not> fixable cfg bUrl (has_doi st \<or> doiSeen s a q) s q \<and> monthRoom s g q"
    using q r by (auto simp: quiet_def)
  from fixLoop_quiet[OF b p this] show ?thesis .
qed

lemma cstring_text: "NUL \<notin> set s \<Longrightarrow> cstring (s @ NUL # z) = s"
proof -
  assume "NUL \<notin> set s"
  then have "\<And>c. c \<in> set s \<Longrightarrow> c \<noteq> NUL" by auto
  then show ?thesis
    by (simp add: cstring_def takeWhile_append2)
qed

lemma cstring_id: "NUL \<notin> set s \<Longrightarrow> cstring s = s"
proof -
  assume "NUL \<notin> set s"
  then have "\<And>c. c \<in> set s \<Longrightarrow> c \<noteq> NUL" by auto
  then show ?thesis
    by (simp add: cstring_def)
qed

lemma fixed_from_loop:
  assumes e: "entry = s @ tail" "g = 0 \<and> tail = [] \<or> g = 1 \<and> tail = [NUL]"
    and s: "s = CHR ''@'' # ty @ CHR ''{'' # rest" "CHR ''{'' \<notin> set ty"
      "NUL \<notin> set s"
    and sz: "int (length entry + 1 + length behind) < ULONG_RANGE"
    and cfg: "\<not> turn_issn_into_missing_year cfg"
    and loop: "\<And>st z. buf st s g z \<Longrightarrow> length z = g + length behind \<Longrightarrow> curBibInd st = typeEnd ty
        \<Longrightarrow> \<not> has_doi st \<Longrightarrow> \<exists>st' z'. fixLoop cfg (urlException cfg (typeRead ty)) st = Some (Ok st') \<and> buf st' out g z'"
  shows "fixed cfg behind entry = Some (Ok out)"
proof -
  define z where "z = tail @ behind"
  have m: "entryBuffer entry behind = s @ NUL # z"
    using e by (auto simp: entryBuffer_def z_def)
  have scan: "bibTypeScan (entryBuffer entry behind) 1 [] = Ok (typeEnd ty, typeRead ty)"
    unfolding m s(1) using bibTypeScan_type[OF s(2), of "rest @ NUL # z"] by simp
  define st0 where "st0 = \<lparr> curBibEntry = entryBuffer entry behind, curBibInd = typeEnd ty,
      curBibLength = length entry, bHasYear = False, bHasISSN = False, issnInd = 0, has_doi = False \<rparr>"
  have "buf st0 s g z"
    using e s(3) sz by (auto simp: buf_def st0_def entryBuffer_def z_def)
  moreover have "length z = g + length behind"
    using e by (auto simp: z_def)
  ultimately obtain st' z' where
    st': "fixLoop cfg (urlException cfg (typeRead ty)) st0 = Some (Ok st')" "buf st' out g z'"
    using loop[of st0 z] by (auto simp: st0_def)
  have "issnToYear cfg st' = Ok st'"
    using cfg by (simp add: issnToYear_def)
  then have "fixEntry cfg (entryBuffer entry behind) (length entry) = Some (Ok st')"
    using scan st'(1) by (simp add: fixEntry_def st0_def)
  moreover have "cstring (curBibEntry st') = out"
    using st'(2) by (simp add: buf_def cstring_text)
  ultimately show ?thesis
    by (simp add: fixed_def)
qed

text \<open>The two forms of an entry as it is copied: closed by a newline, or by the NUL of the input.\<close>

lemma entry_text:
  assumes "entry = body @ [CHR ''}'', t]" "t = NL \<or> t = NUL" "NUL \<notin> set body"
  shows "\<exists>g nl tail. entry = (body @ CHR ''}'' # nl) @ tail \<and> cstring entry = body @ CHR ''}'' # nl
           \<and> NUL \<notin> set (body @ CHR ''}'' # nl)
           \<and> (g = 0 \<and> nl = [NL] \<and> tail = [] \<or> g = 1 \<and> nl = [] \<and> tail = [NUL])"
proof (cases "t = NL")
  case True
  have "NUL \<notin> set (body @ CHR ''}'' # [NL])" using assms(3) by simp
  then have "cstring (body @ CHR ''}'' # [NL]) = body @ CHR ''}'' # [NL]"
    by (rule cstring_id)
  with True assms show ?thesis
    by (intro exI[of _ 0] exI[of _ "[NL]"] exI[of _ "[]"]) simp
next
  case False
  with assms have t: "t = NUL" by simp
  have "NUL \<notin> set (body @ [CHR ''}''])" using assms(3) by simp
  then have "cstring ((body @ [CHR ''}'']) @ NUL # []) = body @ [CHR ''}'']"
    by (rule cstring_text)
  with t assms show ?thesis
    by (intro exI[of _ 1] exI[of _ "[]"] exI[of _ "[NUL]"]) simp
qed

lemma ends_closed:
  assumes "post = [] \<or> last post = NL"
  shows "\<exists>x. y @ NL # post @ CHR ''}'' # nl = x @ NL # CHR ''}'' # nl"
proof (cases "post = []")
  case True
  then show ?thesis by simp
next
  case False
  with assms have "post = butlast post @ [NL]"
    by (metis append_butlast_last_id)
  then have "y @ NL # post @ CHR ''}'' # nl = (y @ NL # butlast post) @ NL # CHR ''}'' # nl"
    by (metis append.assoc append_Cons append_Nil)
  then show ?thesis by blast
qed

lemma fixed_one_edit:
  assumes e: "entry = s @ tail" "g = 0 \<and> tail = [] \<or> g = 1 \<and> tail = [NUL]"
    and s: "s = CHR ''@'' # ty @ CHR ''{'' # rest" "CHR ''{'' \<notin> set ty"
      "NUL \<notin> set s"
    and sz: "int (length entry + 1 + length behind) < ULONG_RANGE"
    and cfg: "\<not> turn_issn_into_missing_year cfg"
    and d: "typeEnd ty \<le> d" "d < length s"
    and qb: "quiet cfg (urlException cfg (typeRead ty)) False s (typeEnd ty) d"
    and rb: "\<forall>p. monthRoom s g p"
    and step: "\<And>st z. buf st s g z \<Longrightarrow> length z = g + length behind \<Longrightarrow> curBibInd st = d
        \<Longrightarrow> has_doi st = doiSeen s (typeEnd ty) d
        \<Longrightarrow> \<exists>st' z'. fixStep cfg (urlException cfg (typeRead ty)) st = Ok st' \<and> buf st' s' g z'
              \<and> curBibInd st' = d' \<and> has_doi st' = has_doi st"
    and d': "d' \<le> length s'"
    and qa: "quiet cfg (urlException cfg (typeRead ty)) (doiSeen s (typeEnd ty) d) s' d' (length s')"
    and ra: "\<forall>p. monthRoom s' g p"
  shows "fixed cfg behind entry = Some (Ok s')"
proof (rule fixed_from_loop[OF e s sz cfg])
  fix st z
  assume b: "buf st s g z" and lz: "length z = g + length behind"
    and c: "curBibInd st = typeEnd ty" and h: "\<not> has_doi st"
  let ?bU = "urlException cfg (typeRead ty)"
  have "quiet cfg ?bU (has_doi st) s (typeEnd ty) d"
    using qb h by simp
  from fixLoop_quiet_to[OF b c d(1) _ this rb] d(2) obtain st1 where
    st1: "fixLoop cfg ?bU st = fixLoop cfg ?bU st1" "buf st1 s g z" "curBibInd st1 = d"
      "has_doi st1 = (has_doi st \<or> doiSeen s (typeEnd ty) d)"
    by auto
  have "has_doi st1 = doiSeen s (typeEnd ty) d"
    using st1(4) h by simp
  from step[OF st1(2) lz st1(3) this] obtain st2 z' where
    st2: "fixStep cfg ?bU st1 = Ok st2" "buf st2 s' g z'" "curBibInd st2 = d'"
      "has_doi st2 = has_doi st1"
    by blast
  have l2: "fixLoop cfg ?bU st1 = fixLoop cfg ?bU st2"
    using fixLoop_next[OF st1(2,3) d(2) st2(1)] .
  have "quiet cfg ?bU (has_doi st2) s' d' (length s')"
    using qa st2(4) \<open>has_doi st1 = doiSeen s (typeEnd ty) d\<close> by simp
  from fixLoop_quiet_end[OF st2(2,3) d' this ra] obtain st3 where
    "fixLoop cfg ?bU st2 = Some (Ok st3)" "buf st3 s' g z'"
    by blast
  with st1(1) l2 show "\<exists>st' z'. fixLoop cfg ?bU st = Some (Ok st') \<and> buf st' s' g z'"
    by auto
qed

lemma fixed_quiet:
  assumes e: "entry = CHR ''@'' # ty @ CHR ''{'' # flds @ [NL, CHR ''}'', t]" "t = NL \<or> t = NUL"
    and ty: "CHR ''{'' \<notin> set ty" "NUL \<notin> set ty"
    and f: "NUL \<notin> set flds"
    and sz: "int (length entry + 1 + length behind) < ULONG_RANGE"
    and cfg: "\<not> turn_issn_into_missing_year cfg"
    and q: "quiet cfg (urlException cfg (typeRead ty)) False (cstring entry) (typeEnd ty) (length (cstring entry))"
  shows "fixed cfg behind entry = Some (Ok (cstring entry))"
proof -
  let ?body = "CHR ''@'' # ty @ CHR ''{'' # flds @ [NL]"
  have "entry = ?body @ [CHR ''}'', t]" using e by simp
  moreover have "NUL \<notin> set ?body" using ty f by simp
  ultimately obtain g :: nat and nl tail where
    t: "entry = (?body @ CHR ''}'' # nl) @ tail" "cstring entry = ?body @ CHR ''}'' # nl"
       "NUL \<notin> set (?body @ CHR ''}'' # nl)"
       "g = 0 \<and> nl = [NL] \<and> tail = [] \<or> g = 1 \<and> nl = [] \<and> tail = [NUL]"
    using entry_text[OF _ e(2), of entry ?body] by blast
  let ?s = "cstring entry"
  have s1: "?s = CHR ''@'' # ty @ CHR ''{'' # (flds @ NL # CHR ''}'' # nl)"
    using t(2) by simp
  have s2: "?s = (CHR ''@'' # ty @ CHR ''{'' # flds) @ NL # CHR ''}'' # nl"
    using t(2) by simp
  have r: "\<forall>p. monthRoom ?s g p"
    using shape_monthRoom[OF s2] t(4) by blast
  have e1: "entry = ?s @ tail" using t(1,2) by simp
  have e2: "g = 0 \<and> tail = [] \<or> g = 1 \<and> tail = [NUL]" using t(4) by blast
  have nz: "NUL \<notin> set ?s" using t(2,3) by simp
  show ?thesis
  proof (rule fixed_from_loop[OF e1 e2 s1 ty(1) nz sz cfg])
    fix st z
    assume b: "buf st ?s g z" and c: "curBibInd st = typeEnd ty" and h: "\<not> has_doi st"
    have le: "typeEnd ty \<le> length ?s" using typeEnd_le[of ty] by (subst s1) simp
    have "quiet cfg (urlException cfg (typeRead ty)) (has_doi st) ?s (typeEnd ty) (length ?s)"
      using q h by simp
    from fixLoop_quiet_end[OF b c le this r]
    show "\<exists>st' z'. fixLoop cfg (urlException cfg (typeRead ty)) st = Some (Ok st') \<and> buf st' ?s g z'"
      by blast
  qed
qed

lemma lineAt_drop: "p < length s \<Longrightarrow> lineAt s p lit = lineAt (drop p s) 0 lit"
  by (simp add: lineAt_def)

lemma byteAt_drop: "byteAt s (p + k) c = byteAt (drop p s) k c"
  by (auto simp: byteAt_def)

lemma fixable_drop:
  "p < length s \<Longrightarrow> fixable cfg b h s p = fixable cfg b h (drop p s) 0"
  unfolding fixable_def
  using lineAt_drop[of p s] byteAt_drop[of s p 9] byteAt_drop[of s p 13]
  by simp

lemma quiet_step:
  assumes "a < d"
  shows "quiet cfg b h s a d =
     (\<not> fixable cfg b h s a \<and> quiet cfg b (h \<or> lineAt s a ''doi ='') s (Suc a) d)"
proof -
  have "{a..<d} = insert a {Suc a..<d}"
    using assms by auto
  moreover have "(h \<or> doiSeen s a p) = ((h \<or> lineAt s a ''doi ='') \<or> doiSeen s (Suc a) p)"
    if "p \<in> {Suc a..<d}" for p
    using that doiSeen_step[of a p s] by auto
  ultimately show ?thesis
    by (simp add: quiet_def doiSeen_empty)
qed

lemma quiet_quietN:
  "a + n \<le> length s \<Longrightarrow> quiet cfg b h s a (a + n) = quietN cfg b h (drop a s) n"
proof (induction n arbitrary: a h)
  case 0
  then show ?case by (simp add: quiet_def)
next
  case (Suc n)
  then have lt: "a < length s" by simp
  then have d: "drop a s = s ! a # drop (Suc a) s"
    by (simp add: Cons_nth_drop_Suc)
  have "quiet cfg b h s a (a + Suc n) =
      (\<not> fixable cfg b h s a \<and> quiet cfg b (h \<or> lineAt s a ''doi ='') s (Suc a) (Suc a + n))"
    using quiet_step[of a "a + Suc n"] by simp
  also have "quiet cfg b (h \<or> lineAt s a ''doi ='') s (Suc a) (Suc a + n)
      = quietN cfg b (h \<or> lineAt s a ''doi ='') (drop (Suc a) s) n"
    using Suc.prems by (intro Suc.IH) simp
  finally show ?case
    using fixable_drop[OF lt, of cfg b h] lineAt_drop[OF lt, of "''doi =''"] d by simp
qed

section \<open>The field rewriter: one edit in an entry that is quiet otherwise\<close>

lemma fixed_edit_at:
  assumes e: "entry = (head @ NL # old) @ [CHR ''}'', t]" "entry' = (head @ NL # new) @ [CHR ''}'', t]"
      "t = NL \<or> t = NUL"
    and head: "head = CHR ''@'' # ty @ CHR ''{'' # pre"
    and ty: "CHR ''{'' \<notin> set ty"
    and nz: "NUL \<notin> set (head @ old @ new)"
    and cl: "\<And>nl. \<exists>x. (head @ NL # old) @ CHR ''}'' # nl = x @ NL # CHR ''}'' # nl"
      "\<And>nl. \<exists>x. (head @ NL # new) @ CHR ''}'' # nl = x @ NL # CHR ''}'' # nl"
    and sz: "int (length entry + 1 + length behind) < ULONG_RANGE"
    and cfg: "\<not> turn_issn_into_missing_year cfg"
    and d': "d' = length head \<or> d' = length head + 1"
    and qb: "quiet cfg (urlException cfg (typeRead ty)) False (cstring entry) (typeEnd ty) (length head)"
    and qa: "quiet cfg (urlException cfg (typeRead ty)) (doiSeen (cstring entry) (typeEnd ty) (length head))
               (cstring entry') d' (length (cstring entry'))"
    and step: "\<And>st z g rest. buf st (head @ NL # old @ rest) g z \<Longrightarrow> length z = g + length behind
        \<Longrightarrow> curBibInd st = length head
        \<Longrightarrow> has_doi st = doiSeen (cstring entry) (typeEnd ty) (length head)
        \<Longrightarrow> \<exists>st' z'. fixStep cfg (urlException cfg (typeRead ty)) st = Ok st' \<and> buf st' (head @ NL # new @ rest) g z'
              \<and> curBibInd st' = d' \<and> has_doi st' = has_doi st"
  shows "fixed cfg behind entry = Some (Ok (cstring entry'))"
proof -
  have "NUL \<notin> set (head @ NL # old)" using nz by simp
  from entry_text[OF e(1,3) this] obtain g :: nat and nl tail where
    t: "entry = ((head @ NL # old) @ CHR ''}'' # nl) @ tail"
       "cstring entry = (head @ NL # old) @ CHR ''}'' # nl"
       "NUL \<notin> set ((head @ NL # old) @ CHR ''}'' # nl)"
       "g = 0 \<and> nl = [NL] \<and> tail = [] \<or> g = 1 \<and> nl = [] \<and> tail = [NUL]"
    by blast
  have "NUL \<notin> set (head @ NL # new)" using nz by simp
  from entry_text[OF e(2,3) this] obtain g' :: nat and nl' tail' where
    t': "entry' = ((head @ NL # new) @ CHR ''}'' # nl') @ tail'"
        "cstring entry' = (head @ NL # new) @ CHR ''}'' # nl'"
        "g' = 0 \<and> nl' = [NL] \<and> tail' = [] \<or> g' = 1 \<and> nl' = [] \<and> tail' = [NUL]"
    by blast
  have same: "nl' = nl"
    using t(1,4) t'(1,3) e(1,2) by auto
  let ?s = "cstring entry" and ?s' = "cstring entry'"
  let ?d = "length head"
  have s1: "?s = CHR ''@'' # ty @ CHR ''{'' # (pre @ NL # old @ CHR ''}'' # nl)"
    using t(2) head by simp
  have sd: "?s = head @ NL # old @ (CHR ''}'' # nl)"
    using t(2) by simp
  have sd': "?s' = head @ NL # new @ (CHR ''}'' # nl)"
    using t'(2) same by simp
  obtain x1 where "?s = x1 @ NL # CHR ''}'' # nl"
    using cl(1)[of nl] t(2) by auto
  then have rb: "\<forall>p. monthRoom ?s g p"
    using shape_monthRoom t(4) by blast
  obtain x2 where "?s' = x2 @ NL # CHR ''}'' # nl"
    using cl(2)[of nl] t'(2) same by auto
  then have ra: "\<forall>p. monthRoom ?s' g p"
    using shape_monthRoom t(4) by blast
  show ?thesis
  proof (rule fixed_one_edit[where s = ?s and g = g and tail = tail and d = ?d and d' = d' and s' = ?s',
        OF _ _ s1 ty _ sz cfg _ _ qb rb _ _ qa ra])
    show "entry = ?s @ tail" using t(1,2) by simp
    show "g = 0 \<and> tail = [] \<or> g = 1 \<and> tail = [NUL]" using t(4) by blast
    show "NUL \<notin> set ?s" using t(2,3) by simp
    show "typeEnd ty \<le> ?d" using head typeEnd_le[of ty] by simp
    show "?d < length ?s" by (subst sd) simp
    show "d' \<le> length ?s'" using d' by (subst sd') auto
  next
    fix st z
    assume b: "buf st ?s g z" and lz: "length z = g + length behind" and c: "curBibInd st = ?d"
      and h: "has_doi st = doiSeen ?s (typeEnd ty) ?d"
    have b': "buf st (head @ NL # old @ (CHR ''}'' # nl)) g z"
      using b sd by simp
    from step[OF b' lz c h]
    show "\<exists>st' z'. fixStep cfg (urlException cfg (typeRead ty)) st = Ok st' \<and> buf st' ?s' g z'
        \<and> curBibInd st' = d' \<and> has_doi st' = has_doi st"
      unfolding sd' by auto
  qed
qed

lemma closed_after_line:
  assumes "post = [] \<or> last post = NL"
  shows "\<exists>x. (head @ NL # line @ NL # post) @ CHR ''}'' # nl = x @ NL # CHR ''}'' # nl"
  using ends_closed[OF assms, of "head @ NL # line" nl] by simp


lemma fixed_title:
  assumes e: "entry = CHR ''@'' # ty @ CHR ''{'' # pre @ NL # ''title ='' @ c8 # c9 # c10 # mid @ x # y # NL # post @ [CHR ''}'', t]"
      "entry' = CHR ''@'' # ty @ CHR ''{'' # pre @ NL # ''title ='' @ c8 # c9 # mid @ y # NL # post @ [CHR ''}'', t]"
      "t = NL \<or> t = NUL" "post = [] \<or> last post = NL"
    and ty: "CHR ''{'' \<notin> set ty" "NUL \<notin> set ty"
    and nz: "NUL \<notin> set (pre @ c8 # c9 # c10 # mid @ x # y # post)"
    and nl: "NL \<notin> set (c8 # c9 # c10 # mid @ [x, y])"
    and sz: "int (length entry + 1 + length behind) < ULONG_RANGE"
    and cfg: "\<not> turn_issn_into_missing_year cfg"
    and qb: "quiet cfg (urlException cfg (typeRead ty)) False (cstring entry) (typeEnd ty) (length ty + 2 + length pre)"
    and qa: "quiet cfg (urlException cfg (typeRead ty)) (doiSeen (cstring entry) (typeEnd ty) (length ty + 2 + length pre))
               (cstring entry') (length ty + 3 + length pre) (length (cstring entry'))"
  shows "fixed cfg behind entry = Some (Ok (cstring entry'))"
proof -
  define head where "head = CHR ''@'' # ty @ CHR ''{'' # pre"
  let ?old = "(''title ='' @ c8 # c9 # c10 # mid @ [x, y]) @ NL # post"
  let ?new = "(''title ='' @ c8 # c9 # mid @ [y]) @ NL # post"
  have l: "length ty + 2 + length pre = length head" "length ty + 3 + length pre = length head + 1"
    by (simp_all add: head_def)
  show ?thesis
  proof (rule fixed_edit_at[where head = head and old = ?old and new = ?new and d' = "length head + 1",
        OF _ _ e(3) head_def ty(1) _ _ _ sz cfg])
    show "entry = (head @ NL # ?old) @ [CHR ''}'', t]" using e(1) by (simp add: head_def)
    show "entry' = (head @ NL # ?new) @ [CHR ''}'', t]" using e(2) by (simp add: head_def)
    show "NUL \<notin> set (head @ ?old @ ?new)" using nz ty(2) by (auto simp: head_def)
    show "\<exists>x. (head @ NL # ?old) @ CHR ''}'' # nl' = x @ NL # CHR ''}'' # nl'" for nl'
      by (rule closed_after_line[OF e(4)])
    show "\<exists>x. (head @ NL # ?new) @ CHR ''}'' # nl' = x @ NL # CHR ''}'' # nl'" for nl'
      by (rule closed_after_line[OF e(4)])
    show "quiet cfg (urlException cfg (typeRead ty)) False (cstring entry) (typeEnd ty) (length head)"
      using qb unfolding l .
    show "quiet cfg (urlException cfg (typeRead ty)) (doiSeen (cstring entry) (typeEnd ty) (length head))
        (cstring entry') (length head + 1) (length (cstring entry'))"
      using qa unfolding l .
    show "length head + 1 = length head \<or> length head + 1 = length head + 1" by simp
  next
    fix st z g rest
    assume b: "buf st (head @ NL # ?old @ rest) g z" and c: "curBibInd st = length head"
    have "buf st (head @ NL # ''title ='' @ c8 # c9 # c10 # mid @ x # y # NL # (post @ rest)) g z"
      using b by simp
    from fixStep_title[OF this c nl, of cfg "urlException cfg (typeRead ty)"]
    show "\<exists>st' z'. fixStep cfg (urlException cfg (typeRead ty)) st = Ok st' \<and> buf st' (head @ NL # ?new @ rest) g z'
        \<and> curBibInd st' = length head + 1 \<and> has_doi st' = has_doi st"
      by auto
  qed
qed


lemma fixed_url:
  assumes e: "entry = CHR ''@'' # ty @ CHR ''{'' # pre @ NL # ''url ='' @ u @ NL # post @ [CHR ''}'', t]"
      "entry' = CHR ''@'' # ty @ CHR ''{'' # pre @ NL # post @ [CHR ''}'', t]"
      "t = NL \<or> t = NUL" "post = [] \<or> last post = NL"
    and ty: "CHR ''{'' \<notin> set ty" "NUL \<notin> set ty"
    and nz: "NUL \<notin> set (pre @ u @ post)"
    and nl: "NL \<notin> set u"
    and sz: "int (length entry + 1 + length behind) < ULONG_RANGE" and bh: "behind \<noteq> []"
    and cfg: "\<not> turn_issn_into_missing_year cfg"
    and drop: "\<not> urlException cfg (typeRead ty) \<or> (keep_url_only_if_no_doi cfg
                 \<and> doiSeen (cstring entry) (typeEnd ty) (length ty + 2 + length pre))"
    and qb: "quiet cfg (urlException cfg (typeRead ty)) False (cstring entry) (typeEnd ty) (length ty + 2 + length pre)"
    and qa: "quiet cfg (urlException cfg (typeRead ty)) (doiSeen (cstring entry) (typeEnd ty) (length ty + 2 + length pre))
               (cstring entry') (length ty + 2 + length pre) (length (cstring entry'))"
  shows "fixed cfg behind entry = Some (Ok (cstring entry'))"
proof -
  define head where "head = CHR ''@'' # ty @ CHR ''{'' # pre"
  let ?old = "(''url ='' @ u) @ NL # post"
  have l: "length ty + 2 + length pre = length head"
    by (simp add: head_def)
  show ?thesis
  proof (rule fixed_edit_at[where head = head and old = ?old and new = post and d' = "length head",
        OF _ _ e(3) head_def ty(1) _ _ _ sz cfg])
    show "entry = (head @ NL # ?old) @ [CHR ''}'', t]" using e(1) by (simp add: head_def)
    show "entry' = (head @ NL # post) @ [CHR ''}'', t]" using e(2) by (simp add: head_def)
    show "NUL \<notin> set (head @ ?old @ post)" using nz ty(2) by (auto simp: head_def)
    show "\<exists>x. (head @ NL # ?old) @ CHR ''}'' # nl' = x @ NL # CHR ''}'' # nl'" for nl'
      by (rule closed_after_line[OF e(4)])
    show "\<exists>x. (head @ NL # post) @ CHR ''}'' # nl' = x @ NL # CHR ''}'' # nl'" for nl'
      using ends_closed[OF e(4), of head nl'] by simp
    show "quiet cfg (urlException cfg (typeRead ty)) False (cstring entry) (typeEnd ty) (length head)"
      using qb unfolding l .
    show "quiet cfg (urlException cfg (typeRead ty)) (doiSeen (cstring entry) (typeEnd ty) (length head))
        (cstring entry') (length head) (length (cstring entry'))"
      using qa unfolding l .
    show "length head = length head \<or> length head = length head + 1" by simp
  next
    fix st z g rest
    assume b: "buf st (head @ NL # ?old @ rest) g z" and lz: "length z = g + length behind"
      and c: "curBibInd st = length head"
      and h: "has_doi st = doiSeen (cstring entry) (typeEnd ty) (length head)"
    have b': "buf st (head @ NL # (''url ='' @ u) @ NL # (post @ rest)) g z"
      using b by simp
    have gz: "g < length z" using lz bh by (cases behind) auto
    have hp: "0 < length head" by (simp add: head_def)
    have dr: "\<not> urlException cfg (typeRead ty) \<or> (keep_url_only_if_no_doi cfg \<and> has_doi st)"
      using drop h l by simp
    from fixStep_url[OF b' c hp gz nl dr]
    show "\<exists>st' z'. fixStep cfg (urlException cfg (typeRead ty)) st = Ok st' \<and> buf st' (head @ NL # post @ rest) g z'
        \<and> curBibInd st' = length head \<and> has_doi st' = has_doi st"
      by auto
  qed
qed

lemma fixed_field:
  assumes e: "entry = CHR ''@'' # ty @ CHR ''{'' # pre @ NL # name @ body @ ''},\<newline>'' @ post @ [CHR ''}'', t]"
      "entry' = CHR ''@'' # ty @ CHR ''{'' # pre @ NL # post @ [CHR ''}'', t]"
      "t = NL \<or> t = NUL" "post = [] \<or> last post = NL"
    and ty: "CHR ''{'' \<notin> set ty" "NUL \<notin> set ty"
    and nz: "NUL \<notin> set (pre @ body @ post)"
    and name: "name = ''annote ='' \<and> \<not> keep_annote cfg \<or> name = ''abstract ='' \<and> \<not> keep_abstract cfg"
    and first: "\<not> (\<exists>j<length (name @ body). terminatorAt ((name @ body) @ ''},\<newline>'') j)"
    and sz: "int (length entry + 1 + length behind) < ULONG_RANGE" and bh: "behind \<noteq> []"
    and cfg: "\<not> turn_issn_into_missing_year cfg"
    and qb: "quiet cfg (urlException cfg (typeRead ty)) False (cstring entry) (typeEnd ty) (length ty + 2 + length pre)"
    and qa: "quiet cfg (urlException cfg (typeRead ty)) (doiSeen (cstring entry) (typeEnd ty) (length ty + 2 + length pre))
               (cstring entry') (length ty + 2 + length pre) (length (cstring entry'))"
  shows "fixed cfg behind entry = Some (Ok (cstring entry'))"
proof -
  define head where "head = CHR ''@'' # ty @ CHR ''{'' # pre"
  let ?old = "(name @ body @ ''},'') @ NL # post"
  have l: "length ty + 2 + length pre = length head"
    by (simp add: head_def)
  have nn: "NUL \<notin> set name" using name by auto
  show ?thesis
  proof (rule fixed_edit_at[where head = head and old = ?old and new = post and d' = "length head",
        OF _ _ e(3) head_def ty(1) _ _ _ sz cfg])
    show "entry = (head @ NL # ?old) @ [CHR ''}'', t]" using e(1) by (simp add: head_def)
    show "entry' = (head @ NL # post) @ [CHR ''}'', t]" using e(2) by (simp add: head_def)
    show "NUL \<notin> set (head @ ?old @ post)" using nz ty(2) nn by (auto simp: head_def)
    show "\<exists>x. (head @ NL # ?old) @ CHR ''}'' # nl' = x @ NL # CHR ''}'' # nl'" for nl'
      by (rule closed_after_line[OF e(4)])
    show "\<exists>x. (head @ NL # post) @ CHR ''}'' # nl' = x @ NL # CHR ''}'' # nl'" for nl'
      using ends_closed[OF e(4), of head nl'] by simp
    show "quiet cfg (urlException cfg (typeRead ty)) False (cstring entry) (typeEnd ty) (length head)"
      using qb unfolding l .
    show "quiet cfg (urlException cfg (typeRead ty)) (doiSeen (cstring entry) (typeEnd ty) (length head))
        (cstring entry') (length head) (length (cstring entry'))"
      using qa unfolding l .
    show "length head = length head \<or> length head = length head + 1" by simp
  next
    fix st z g rest
    assume b: "buf st (head @ NL # ?old @ rest) g z" and lz: "length z = g + length behind"
      and c: "curBibInd st = length head"
    have b': "buf st (head @ NL # (name @ body) @ ''},\<newline>'' @ (post @ rest)) g z"
      using b by simp
    have gz: "g < length z" using lz bh by (cases behind) auto
    have hp: "0 < length head" by (simp add: head_def)
    from fixStep_field[OF b' c hp gz name first, of "urlException cfg (typeRead ty)"]
    show "\<exists>st' z'. fixStep cfg (urlException cfg (typeRead ty)) st = Ok st' \<and> buf st' (head @ NL # post @ rest) g z'
        \<and> curBibInd st' = length head \<and> has_doi st' = has_doi st"
      by auto
  qed
qed

lemma fixable_mono:
  "fixable cfg b h s p \<Longrightarrow> fixable cfg b True s p"
  by (auto simp: fixable_def)

lemma quiet_mono:
  "quiet cfg b True s a d \<Longrightarrow> quiet cfg b h s a d"
  unfolding quiet_def using fixable_mono by auto

lemma quiet_join:
  assumes "a \<le> p" "p < d"
  shows "quiet cfg b h s a d
     = (quiet cfg b h s a p \<and> \<not> fixable cfg b (h \<or> doiSeen s a p) s p
        \<and> quiet cfg b (h \<or> doiSeen s a (Suc p)) s (Suc p) d)"
proof -
  have split: "{a..<d} = {a..<p} \<union> {p} \<union> {Suc p..<d}"
    using assms by auto
  have "(h \<or> doiSeen s a q) = ((h \<or> doiSeen s a (Suc p)) \<or> doiSeen s (Suc p) q)"
    if "q \<in> {Suc p..<d}" for q
  proof -
    have "doiSeen s a q = (doiSeen s a (Suc p) \<or> doiSeen s (Suc p) q)"
    proof
      assume "doiSeen s a q"
      then obtain k where k: "a \<le> k" "k < q" "lineAt s k ''doi =''"
        by (auto simp: doiSeen_def)
      show "doiSeen s a (Suc p) \<or> doiSeen s (Suc p) q"
      proof (cases "k < Suc p")
        case True
        with k show ?thesis by (auto simp: doiSeen_def)
      next
        case False
        with k show ?thesis by (auto simp: doiSeen_def)
      qed
    next
      assume "doiSeen s a (Suc p) \<or> doiSeen s (Suc p) q"
      then show "doiSeen s a q"
        using that assms by (auto simp: doiSeen_def)
    qed
    then show ?thesis by blast
  qed
  note eq = this
  have B: "(\<forall>q\<in>{Suc p..<d}. \<not> fixable cfg b (h \<or> doiSeen s a q) s q)
      = quiet cfg b (h \<or> doiSeen s a (Suc p)) s (Suc p) d"
    unfolding quiet_def
  proof (rule ball_cong[OF refl])
    fix q assume "q \<in> {Suc p..<d}"
    from eq[OF this]
    show "(\<not> fixable cfg b (h \<or> doiSeen s a q) s q)
        = (\<not> fixable cfg b ((h \<or> doiSeen s a (Suc p)) \<or> doiSeen s (Suc p) q) s q)"
      by (simp only:)
  qed
  have "quiet cfg b h s a d = ((\<forall>q\<in>{a..<p}. \<not> fixable cfg b (h \<or> doiSeen s a q) s q)
      \<and> \<not> fixable cfg b (h \<or> doiSeen s a p) s p
      \<and> (\<forall>q\<in>{Suc p..<d}. \<not> fixable cfg b (h \<or> doiSeen s a q) s q))"
    unfolding quiet_def split by blast
  also have "\<dots> = (quiet cfg b h s a p \<and> \<not> fixable cfg b (h \<or> doiSeen s a p) s p
        \<and> quiet cfg b (h \<or> doiSeen s a (Suc p)) s (Suc p) d)"
    unfolding B by (simp add: quiet_def)
  finally show ?thesis .
qed




lemma cstring_closed:
  assumes "entry = b @ [CHR ''}'', t]" "t = NL \<or> t = NUL" "NUL \<notin> set b"
  shows "length (cstring entry) = length b + (if t = NL then 2 else 1)"
proof (cases "t = NL")
  case True
  have "NUL \<notin> set entry"
    using assms(3) True unfolding assms(1) by simp
  then have "cstring entry = entry"
    by (rule cstring_id)
  then show ?thesis using True unfolding assms(1) by simp
next
  case False
  then have t: "t = NUL" using assms(2) by simp
  have e: "entry = (b @ [CHR ''}'']) @ NUL # []"
    unfolding assms(1) t by simp
  have m: "NUL \<notin> set (b @ [CHR ''}''])"
    using assms(3) by simp
  have "cstring entry = b @ [CHR ''}'']"
    unfolding e using m by (rule cstring_text)
  then show ?thesis using False by simp
qed

lemma url_line_not_fixable:
  assumes "lineAt s p ''url =''" "b" "\<not> h"
  shows "\<not> fixable cfg b h s p"
proof -
  have "\<not> lineAt s p ''title =''" "\<not> lineAt s p ''annote =''" "\<not> lineAt s p ''abstract =''"
    "\<not> lineAt s p ''file =''" "\<not> lineAt s p ''month =''"
    using lineAt_distinct[OF assms(1)] by fastforce+
  moreover have "s ! p = NL" "p < length s" using assms(1) by (simp_all add: lineAt_def)
  then have "drop p s = NL # drop (Suc p) s"
    by (simp add: Cons_nth_drop_Suc[symmetric])
  then have "take 4 (drop p s) \<noteq> escOpen" "take 4 (drop p s) \<noteq> escClose"
    by (simp_all add: escOpen_def escClose_def)
  ultimately show ?thesis
    using assms(2,3) by (simp add: fixable_def)
qed

lemma url_line_not_doi:
  "lineAt s p ''url ='' \<Longrightarrow> doiSeen s a (Suc p) = doiSeen s a p"
proof -
  assume m: "lineAt s p ''url =''"
  have "\<not> lineAt s p ''doi =''"
    using lineAt_distinct[OF m] by fastforce
  then show ?thesis
    by (auto simp: doiSeen_def less_Suc_eq)
qed

lemma fixed_url_kept:
  assumes e: "entry = CHR ''@'' # ty @ CHR ''{'' # flds @ [NL, CHR ''}'', t]" "t = NL \<or> t = NUL"
    and ty: "CHR ''{'' \<notin> set ty" "NUL \<notin> set ty"
    and f: "NUL \<notin> set flds"
    and sz: "int (length entry + 1 + length behind) < ULONG_RANGE"
    and cfg: "\<not> turn_issn_into_missing_year cfg"
    and p: "typeEnd ty \<le> p" "lineAt (cstring entry) p ''url =''"
    and u: "urlException cfg (typeRead ty)" "\<not> doiSeen (cstring entry) (typeEnd ty) p"
    and qb: "quiet cfg (urlException cfg (typeRead ty)) False (cstring entry) (typeEnd ty) p"
    and qa: "quiet cfg (urlException cfg (typeRead ty)) False (cstring entry) (Suc p) (length (cstring entry))"
  shows "fixed cfg behind entry = Some (Ok (cstring entry))"
proof (rule fixed_quiet[OF e ty f sz cfg])
  let ?s = "cstring entry"
  have l: "p < length ?s" using p(2) by (simp add: lineAt_def)
  have "\<not> fixable cfg (urlException cfg (typeRead ty)) (False \<or> doiSeen ?s (typeEnd ty) p) ?s p"
    using url_line_not_fixable[OF p(2) u(1)] u(2) by simp
  moreover have "quiet cfg (urlException cfg (typeRead ty)) (False \<or> doiSeen ?s (typeEnd ty) (Suc p)) ?s (Suc p) (length ?s)"
    using qa u(2) url_line_not_doi[OF p(2), of "typeEnd ty"] by simp
  ultimately show "quiet cfg (urlException cfg (typeRead ty)) False ?s (typeEnd ty) (length ?s)"
    using quiet_join[OF p(1) l, of cfg "urlException cfg (typeRead ty)" False] qb by blast
qed

lemma fixStep_skip:
  assumes b: "buf st s g z" and p: "curBibInd st = p" "p < length s"
    and q: "\<not> fixable cfg bUrl (has_doi st) s p" and r: "monthRoom s g p"
  shows "\<exists>st'. fixStep cfg bUrl st = Ok st' \<and> curBibEntry st' = curBibEntry st
           \<and> curBibLength st' = curBibLength st \<and> curBibInd st' = p + 1"
proof -
  from fixStep_quiet[OF b p q r] obtain st' where
    s: "fixStep cfg bUrl st = Ok st'" "buf st' s g z" "curBibInd st' = p + 1"
    by blast
  have "curBibEntry st' = curBibEntry st" "curBibLength st' = curBibLength st"
    using b s(2) by (simp_all add: buf_def)
  with s(1,3) show ?thesis by blast
qed

lemma title_line_parts:
  assumes "old = ''title = {{'' @ ttl @ ''}}'' @ e" "new = ''title = {'' @ ttl @ ''}'' @ e" "length e \<le> 1"
  shows "\<exists>mid x y. old = ''title ='' @ CHR '' '' # CHR ''{'' # CHR ''{'' # mid @ [x, y]
           \<and> new = ''title ='' @ CHR '' '' # CHR ''{'' # mid @ [y]
           \<and> set (mid @ [x, y]) \<subseteq> insert (CHR ''}'') (set (ttl @ e))"
proof (cases e)
  case Nil
  with assms(1,2) show ?thesis
    by (intro exI[of _ ttl] exI[of _ "CHR ''}''"]) auto
next
  case (Cons c cs)
  with assms(3) have "e = [c]" by simp
  with assms(1,2) show ?thesis
    by (intro exI[of _ "ttl @ ''}''"] exI[of _ "CHR ''}''"] exI[of _ c]) auto
qed

text \<open>
  The same removals in a buffer that has nothing behind it: the move asks for one byte
  more than there is.
\<close>

lemma eraseTo_fault:
  assumes b: "buf st (pre @ NL # del @ rest) g z" and p: "curBibInd st = length pre"
    and gz: "length z = g"
  shows "eraseTo st (length pre + length del) = Fault"
proof -
  let ?s = "pre @ NL # del @ rest"
  have m: "curBibEntry st = ?s @ NUL # z" and L: "curBibLength st = length ?s + g"
    and sz: "int (length ?s + 1 + length z) < ULONG_RANGE"
    using b by (simp_all add: buf_def)
  have n: "ulong (int (curBibLength st) - int (length pre + length del) + 1) = length rest + g + 2"
    using sz gz by (subst ulong_nat) (auto simp: L)
  have "length (curBibEntry st) < length pre + length del + 1 + (length rest + g + 2)"
    using gz by (simp add: m)
  then have "memmove (curBibEntry st) (length pre + 1) (length pre + length del + 1) (length rest + g + 2) = Fault"
    by (simp add: memmove_def)
  then show ?thesis
    using n by (simp add: eraseTo_def Let_def p)
qed

lemma eraseLine_fault:
  assumes b: "buf st (pre @ NL # line @ NL # rest) g z" and p: "curBibInd st = length pre"
    and gz: "length z = g" and nl: "NL \<notin> set line"
  shows "eraseLine st = Fault"
proof -
  have m: "curBibEntry st = (pre @ [NL]) @ line @ NL # (rest @ NUL # z)"
    using b by (simp add: buf_def)
  have "findEndOfLine (curBibEntry st) (curBibInd st + 1) = Ok (length (pre @ [NL]) + length line)"
    unfolding m by (rule findEndOfLine_found[OF nl]) (simp add: p)
  then have e: "eraseLine st = eraseTo st (length pre + length (line @ [NL]))"
    by (simp add: eraseLine_def)
  have "buf st (pre @ NL # (line @ [NL]) @ rest) g z"
    using b by simp
  from eraseTo_fault[OF this p gz] e show ?thesis by simp
qed

lemma eraseField_fault:
  assumes b: "buf st (pre @ NL # fld @ ''},\<newline>'' @ rest) g z"
    and p: "curBibInd st = length pre"
    and gz: "length z = g" and f: "fld \<noteq> []"
    and first: "\<not> (\<exists>j<length fld. terminatorAt (fld @ ''},\<newline>'') j)"
  shows "eraseField st = Fault"
proof -
  let ?m = "curBibEntry st"
  let ?F = "fld @ ''},\<newline>''"
  have m: "?m = (pre @ [NL]) @ ?F @ (rest @ NUL # z)"
    using b by (simp add: buf_def)
  have t: "terminatorAt ?m (length (pre @ [NL]) + length fld)"
    unfolding m terminatorAt_shift by (simp add: terminatorAt_def)
  have nt: "\<not> terminatorAt ?m k" if k: "length pre + 1 < k \<and> k < length pre + 1 + length fld" for k
  proof -
    define j where "j = k - (length pre + 1)"
    have j: "k = length (pre @ [NL]) + j" "j < length fld" using k by (auto simp: j_def)
    have "terminatorAt ?m k = terminatorAt (?F @ (rest @ NUL # z)) j"
      unfolding m j(1) terminatorAt_shift ..
    also have "\<dots> = terminatorAt ?F j"
      using j(2) by (intro terminatorAt_window) simp
    finally show ?thesis using first j(2) by blast
  qed
  have "findEndOfField ?m (length pre + 1) = Ok (length pre + length (?F))"
    unfolding findEndOfField_Ok_iff
  proof (intro conjI allI impI)
    show "length pre + 1 + 3 \<le> length pre + length ?F"
      using f by (cases fld) simp_all
    have "length pre + length ?F - 2 = length (pre @ [NL]) + length fld"
      by simp
    then show "terminatorAt ?m (length pre + length ?F - 2)"
      using t by simp
    fix k assume "length pre + 1 < k \<and> k < length pre + length ?F - 2"
    then have "length pre + 1 < k \<and> k < length pre + 1 + length fld" by simp
    then show "\<not> terminatorAt ?m k" by (rule nt)
  qed
  then have e: "eraseField st = eraseTo st (length pre + length ?F)"
    by (simp add: eraseField_def p)
  have "buf st (pre @ NL # ?F @ rest) g z"
    using b by simp
  from eraseTo_fault[OF this p gz] e show ?thesis by simp
qed

lemma fixStep_url_fault:
  assumes b: "buf st (pre @ NL # (''url ='' @ u) @ NL # rest) g z"
    and p: "curBibInd st = length pre"
    and gz: "length z = g" and nl: "NL \<notin> set u"
    and c: "\<not> bUrl \<or> (keep_url_only_if_no_doi cfg \<and> has_doi st)"
  shows "fixStep cfg bUrl st = Fault"
proof -
  let ?s = "pre @ NL # (''url ='' @ u) @ NL # rest"
  let ?p = "length pre"
  have m: "curBibEntry st = ?s @ NUL # z" using b by (simp add: buf_def)
  have pl: "?p < length ?s" "?s ! ?p = NL" by (simp_all add: nth_append)
  have t: "strncmp0 (curBibEntry st) (Suc ?p) lit = Ok (lineAt ?s ?p lit)" if "NUL \<notin> set lit" for lit
    using strncmp0_line[OF that pl] m by simp
  have u: "lineAt ?s ?p ''url =''"
    using lineAt_here[of pre "''url =''" "u @ NL # rest"] by simp
  have n: "\<not> lineAt ?s ?p ''month =''" "\<not> lineAt ?s ?p ''title =''" "\<not> lineAt ?s ?p ''annote =''"
    "\<not> lineAt ?s ?p ''abstract =''" "\<not> lineAt ?s ?p ''doi =''" "\<not> lineAt ?s ?p ''file =''"
    using lineAt_distinct[OF u] by fastforce+
  have "fixLine cfg bUrl st = eraseLine st"
    using u n c by (auto simp: fixLine_def Let_def p t annoteOrAbstract_def)
  moreover have "NL \<notin> set (''url ='' @ u)" using nl by simp
  from eraseLine_fault[OF b p gz this] have "eraseLine st = Fault" .
  moreover have "curBibEntry st ! ?p = NL"
    using m pl by (simp add: nth_append)
  ultimately show ?thesis
    using p by (simp add: fixStep_def)
qed

lemma fixStep_field_fault:
  assumes b: "buf st (pre @ NL # (name @ body) @ ''},\<newline>'' @ rest) g z"
    and p: "curBibInd st = length pre"
    and gz: "length z = g"
    and name: "name = ''annote ='' \<and> \<not> keep_annote cfg \<or> name = ''abstract ='' \<and> \<not> keep_abstract cfg"
    and first: "\<not> (\<exists>j<length (name @ body). terminatorAt ((name @ body) @ ''},\<newline>'') j)"
  shows "fixStep cfg bUrl st = Fault"
proof -
  let ?s = "pre @ NL # (name @ body) @ ''},\<newline>'' @ rest"
  let ?p = "length pre"
  have m: "curBibEntry st = ?s @ NUL # z" using b by (simp add: buf_def)
  have pl: "?p < length ?s" "?s ! ?p = NL" by (simp_all add: nth_append)
  have t: "strncmp0 (curBibEntry st) (Suc ?p) lit = Ok (lineAt ?s ?p lit)" if "NUL \<notin> set lit" for lit
    using strncmp0_line[OF that pl] m by simp
  have u: "lineAt ?s ?p name"
    using lineAt_here[of pre name "body @ ''},\<newline>'' @ rest"] by simp
  have "name = CHR ''a'' # tl name" using name by auto
  with u have u': "lineAt ?s ?p (CHR ''a'' # tl name)" by simp
  have n: "\<not> lineAt ?s ?p ''month =''" "\<not> lineAt ?s ?p ''title =''"
    using lineAt_distinct[OF _ u'] by fastforce+
  have "annoteOrAbstract cfg (curBibEntry st) ?p = Ok True"
  proof (cases "name = ''annote ='' \<and> \<not> keep_annote cfg")
    case True
    with u show ?thesis by (simp add: annoteOrAbstract_def t)
  next
    case False
    with name have ab: "name = ''abstract =''" "\<not> keep_abstract cfg" by auto
    have "\<not> lineAt ?s ?p ''annote =''"
    proof
      assume "lineAt ?s ?p ''annote =''"
      then have "?s ! (?p + 2) = CHR ''n''" by (rule lineAt_second)
      moreover have "?s ! (?p + 2) = CHR ''b''"
        using u ab by (intro lineAt_second[of ?s ?p "CHR ''a''" _ "''stract =''"]) simp
      ultimately show False by simp
    qed
    with u ab show ?thesis by (simp add: annoteOrAbstract_def t)
  qed
  then have "fixLine cfg bUrl st = eraseField st"
    using n by (simp add: fixLine_def Let_def p t)
  moreover have "name @ body \<noteq> []" using name by auto
  from eraseField_fault[OF b p gz this first] have "eraseField st = Fault" .
  moreover have "curBibEntry st ! ?p = NL"
    using m pl by (simp add: nth_append)
  ultimately show ?thesis
    using p by (simp add: fixStep_def)
qed

lemma fixLoop_fault:
  assumes "buf st s g z" "curBibInd st = p" "p < length s" "fixStep cfg bUrl st = Fault"
  shows "fixLoop cfg bUrl st = Some Fault"
proof -
  have "NUL \<notin> set s"
    using assms(1) by (simp add: buf_def)
  then have "s ! p \<noteq> NUL"
    using assms(3) nth_mem by metis
  moreover have "rd (curBibEntry st) (curBibInd st) = Ok (s ! p)"
    using assms by (auto simp: buf_def rd_def nth_append)
  ultimately show ?thesis using assms(4)
    by (subst fixLoop.simps) simp
qed

lemma fixed_fault_from_loop:
  assumes e: "entry = s @ tail" "g = 0 \<and> tail = [] \<or> g = 1 \<and> tail = [NUL]"
    and s: "s = CHR ''@'' # ty @ CHR ''{'' # rest" "CHR ''{'' \<notin> set ty"
      "NUL \<notin> set s"
    and sz: "int (length entry + 1 + length behind) < ULONG_RANGE"
    and loop: "\<And>st z. buf st s g z \<Longrightarrow> length z = g + length behind \<Longrightarrow> curBibInd st = typeEnd ty
        \<Longrightarrow> \<not> has_doi st \<Longrightarrow> fixLoop cfg (urlException cfg (typeRead ty)) st = Some Fault"
  shows "fixed cfg behind entry = Some Fault"
proof -
  define z where "z = tail @ behind"
  have m: "entryBuffer entry behind = s @ NUL # z"
    using e by (auto simp: entryBuffer_def z_def)
  have scan: "bibTypeScan (entryBuffer entry behind) 1 [] = Ok (typeEnd ty, typeRead ty)"
    unfolding m s(1) using bibTypeScan_type[OF s(2), of "rest @ NUL # z"] by simp
  define st0 where "st0 = \<lparr> curBibEntry = entryBuffer entry behind, curBibInd = typeEnd ty,
      curBibLength = length entry, bHasYear = False, bHasISSN = False, issnInd = 0, has_doi = False \<rparr>"
  have "buf st0 s g z"
    using e s(3) sz by (auto simp: buf_def st0_def entryBuffer_def z_def)
  moreover have "length z = g + length behind"
    using e by (auto simp: z_def)
  ultimately have "fixLoop cfg (urlException cfg (typeRead ty)) st0 = Some Fault"
    using loop[of st0 z] by (auto simp: st0_def)
  then have "fixEntry cfg (entryBuffer entry behind) (length entry) = Some Fault"
    using scan by (simp add: fixEntry_def st0_def)
  then show ?thesis
    by (simp add: fixed_def)
qed

lemma fixed_fault_at:
  assumes e: "entry = (head @ NL # old) @ [CHR ''}'', t]" "t = NL \<or> t = NUL"
    and head: "head = CHR ''@'' # ty @ CHR ''{'' # pre"
    and ty: "CHR ''{'' \<notin> set ty"
    and nz: "NUL \<notin> set (head @ old)"
    and cl: "\<And>nl. \<exists>x. (head @ NL # old) @ CHR ''}'' # nl = x @ NL # CHR ''}'' # nl"
    and sz: "int (length entry + 1 + length behind) < ULONG_RANGE"
    and qb: "quiet cfg (urlException cfg (typeRead ty)) False (cstring entry) (typeEnd ty) (length head)"
    and step: "\<And>st z g rest. buf st (head @ NL # old @ rest) g z \<Longrightarrow> length z = g + length behind
        \<Longrightarrow> curBibInd st = length head
        \<Longrightarrow> has_doi st = doiSeen (cstring entry) (typeEnd ty) (length head)
        \<Longrightarrow> fixStep cfg (urlException cfg (typeRead ty)) st = Fault"
  shows "fixed cfg behind entry = Some Fault"
proof -
  have "NUL \<notin> set (head @ NL # old)" using nz by simp
  from entry_text[OF e(1,2) this] obtain g :: nat and nl tail where
    t: "entry = ((head @ NL # old) @ CHR ''}'' # nl) @ tail"
       "cstring entry = (head @ NL # old) @ CHR ''}'' # nl"
       "NUL \<notin> set ((head @ NL # old) @ CHR ''}'' # nl)"
       "g = 0 \<and> nl = [NL] \<and> tail = [] \<or> g = 1 \<and> nl = [] \<and> tail = [NUL]"
    by blast
  let ?s = "cstring entry"
  let ?d = "length head"
  let ?bU = "urlException cfg (typeRead ty)"
  have s1: "?s = CHR ''@'' # ty @ CHR ''{'' # (pre @ NL # old @ CHR ''}'' # nl)"
    using t(2) head by simp
  have sd: "?s = head @ NL # old @ (CHR ''}'' # nl)"
    using t(2) by simp
  obtain x1 where "?s = x1 @ NL # CHR ''}'' # nl"
    using cl[of nl] t(2) by auto
  then have rb: "\<forall>p. monthRoom ?s g p"
    using shape_monthRoom t(4) by blast
  have d: "typeEnd ty \<le> ?d" "?d < length ?s"
    using head typeEnd_le[of ty] by (simp, subst sd, simp)
  show ?thesis
  proof (rule fixed_fault_from_loop[where s = ?s and g = g and tail = tail, OF _ _ s1 ty _ sz])
    show "entry = ?s @ tail" using t(1,2) by simp
    show "g = 0 \<and> tail = [] \<or> g = 1 \<and> tail = [NUL]" using t(4) by blast
    show "NUL \<notin> set ?s" using t(2,3) by simp
  next
    fix st z
    assume b: "buf st ?s g z" and lz: "length z = g + length behind"
      and c: "curBibInd st = typeEnd ty" and h: "\<not> has_doi st"
    have "quiet cfg ?bU (has_doi st) ?s (typeEnd ty) ?d"
      using qb h by simp
    from fixLoop_quiet_to[OF b c d(1) _ this rb] d(2) obtain st1 where
      st1: "fixLoop cfg ?bU st = fixLoop cfg ?bU st1" "buf st1 ?s g z" "curBibInd st1 = ?d"
        "has_doi st1 = (has_doi st \<or> doiSeen ?s (typeEnd ty) ?d)"
      by auto
    have hd: "has_doi st1 = doiSeen ?s (typeEnd ty) ?d"
      using st1(4) h by simp
    have b': "buf st1 (head @ NL # old @ (CHR ''}'' # nl)) g z"
      using st1(2) sd by simp
    have "fixStep cfg ?bU st1 = Fault"
      using step[OF b' lz st1(3) hd] .
    from fixLoop_fault[OF st1(2,3) d(2) this] st1(1)
    show "fixLoop cfg ?bU st = Some Fault" by simp
  qed
qed

lemma fixed_url_fault:
  assumes e: "entry = CHR ''@'' # ty @ CHR ''{'' # pre @ NL # ''url ='' @ u @ NL # post @ [CHR ''}'', t]"
      "t = NL \<or> t = NUL" "post = [] \<or> last post = NL"
    and ty: "CHR ''{'' \<notin> set ty" "NUL \<notin> set ty"
    and nz: "NUL \<notin> set (pre @ u @ post)"
    and nl: "NL \<notin> set u"
    and sz: "int (length entry + 1 + length behind) < ULONG_RANGE" and bh: "behind = []"
    and drop: "\<not> urlException cfg (typeRead ty) \<or> (keep_url_only_if_no_doi cfg
                 \<and> doiSeen (cstring entry) (typeEnd ty) (length ty + 2 + length pre))"
    and qb: "quiet cfg (urlException cfg (typeRead ty)) False (cstring entry) (typeEnd ty) (length ty + 2 + length pre)"
  shows "fixed cfg behind entry = Some Fault"
proof -
  define head where "head = CHR ''@'' # ty @ CHR ''{'' # pre"
  let ?old = "(''url ='' @ u) @ NL # post"
  have l: "length ty + 2 + length pre = length head"
    by (simp add: head_def)
  show ?thesis
  proof (rule fixed_fault_at[where head = head and old = ?old, OF _ e(2) head_def ty(1) _ _ sz])
    show "entry = (head @ NL # ?old) @ [CHR ''}'', t]" using e(1) by (simp add: head_def)
    show "NUL \<notin> set (head @ ?old)" using nz ty(2) by (auto simp: head_def)
    show "\<exists>x. (head @ NL # ?old) @ CHR ''}'' # nl' = x @ NL # CHR ''}'' # nl'" for nl'
      by (rule closed_after_line[OF e(3)])
    show "quiet cfg (urlException cfg (typeRead ty)) False (cstring entry) (typeEnd ty) (length head)"
      using qb unfolding l .
  next
    fix st z g rest
    assume b: "buf st (head @ NL # ?old @ rest) g z" and lz: "length z = g + length behind"
      and c: "curBibInd st = length head"
      and h: "has_doi st = doiSeen (cstring entry) (typeEnd ty) (length head)"
    have b': "buf st (head @ NL # (''url ='' @ u) @ NL # (post @ rest)) g z"
      using b by simp
    have gz: "length z = g" using lz bh by simp
    have dr: "\<not> urlException cfg (typeRead ty) \<or> (keep_url_only_if_no_doi cfg \<and> has_doi st)"
      using drop h l by simp
    from fixStep_url_fault[OF b' c gz nl dr]
    show "fixStep cfg (urlException cfg (typeRead ty)) st = Fault" .
  qed
qed

lemma fixed_field_fault:
  assumes e: "entry = CHR ''@'' # ty @ CHR ''{'' # pre @ NL # name @ body @ ''},\<newline>'' @ post @ [CHR ''}'', t]"
      "t = NL \<or> t = NUL" "post = [] \<or> last post = NL"
    and ty: "CHR ''{'' \<notin> set ty" "NUL \<notin> set ty"
    and nz: "NUL \<notin> set (pre @ body @ post)"
    and name: "name = ''annote ='' \<and> \<not> keep_annote cfg \<or> name = ''abstract ='' \<and> \<not> keep_abstract cfg"
    and first: "\<not> (\<exists>j<length (name @ body). terminatorAt ((name @ body) @ ''},\<newline>'') j)"
    and sz: "int (length entry + 1 + length behind) < ULONG_RANGE" and bh: "behind = []"
    and qb: "quiet cfg (urlException cfg (typeRead ty)) False (cstring entry) (typeEnd ty) (length ty + 2 + length pre)"
  shows "fixed cfg behind entry = Some Fault"
proof -
  define head where "head = CHR ''@'' # ty @ CHR ''{'' # pre"
  let ?old = "(name @ body @ ''},'') @ NL # post"
  have l: "length ty + 2 + length pre = length head"
    by (simp add: head_def)
  have nn: "NUL \<notin> set name" using name by auto
  show ?thesis
  proof (rule fixed_fault_at[where head = head and old = ?old, OF _ e(2) head_def ty(1) _ _ sz])
    show "entry = (head @ NL # ?old) @ [CHR ''}'', t]" using e(1) by (simp add: head_def)
    show "NUL \<notin> set (head @ ?old)" using nz ty(2) nn by (auto simp: head_def)
    show "\<exists>x. (head @ NL # ?old) @ CHR ''}'' # nl' = x @ NL # CHR ''}'' # nl'" for nl'
      by (rule closed_after_line[OF e(3)])
    show "quiet cfg (urlException cfg (typeRead ty)) False (cstring entry) (typeEnd ty) (length head)"
      using qb unfolding l .
  next
    fix st z g rest
    assume b: "buf st (head @ NL # ?old @ rest) g z" and lz: "length z = g + length behind"
      and c: "curBibInd st = length head"
    have b': "buf st (head @ NL # (name @ body) @ ''},\<newline>'' @ (post @ rest)) g z"
      using b by simp
    have gz: "length z = g" using lz bh by simp
    from fixStep_field_fault[OF b' c gz name first]
    show "fixStep cfg (urlException cfg (typeRead ty)) st = Fault" .
  qed
qed

section \<open>The claims about the field rewriter\<close>

text \<open>
  In the statements below an entry is written as the scanner copies it: \<open>@\<close>, the type
  \<open>ty\<close>, \<open>{\<close>, the fields, and a closing brace on a line of its own, followed by the
  byte \<open>t\<close> that the copy takes along, a newline or the NUL of the input.  \<open>behind\<close>
  are the bytes that can be read behind the buffer of the entry.
\<close>

text \<open>
  C1 fails under the default configuration: \<open>turn_every_entry_url_exception\<close> is set
  there, so an entry of type \<open>article\<close> is a URL exception like every other entry, and
  with no DOI its \<open>url =\<close> line is kept.
\<close>

theorem url_default_counterexample:
  "fixed default_config [] ''@article{k,\<newline>url = {http://x.org/a},\<newline>year = {2016}\<newline>}\<newline>''
     = Some (Ok ''@article{k,\<newline>url = {http://x.org/a},\<newline>year = {2016}\<newline>}\<newline>'')"
  by code_simp

text \<open>
  C1, as the code has it.  Take a configuration in which every entry is made a URL
  exception, as the default one does; the flag passed to the loop is then set whatever
  the type \<open>bibType\<close> of the entry is.

  One turn of the loop: whenever the loop stands at the newline before a \<open>url =\<close> line
  and no DOI has been met in the entry, the turn changes nothing in the buffer: the
  line is kept.

  A whole entry, as the scanner copies it, with a \<open>url =\<close> line, no \<open>doi =\<close> line
  before it and nothing fixable elsewhere, the year not being filled in from the ISSN:
  the rewriter returns the text of the entry unchanged.
\<close>

theorem url_kept_by_override:
  assumes "turn_every_entry_url_exception cfg"
    and "buf st s g z" "curBibInd st = q" "lineAt s q ''url =''" "\<not> has_doi st"
    and "entry = CHR ''@'' # ty @ CHR ''{'' # flds @ [NL, CHR ''}'', t]" "t = NL \<or> t = NUL"
    and "CHR ''{'' \<notin> set ty" "NUL \<notin> set ty" "NUL \<notin> set flds"
    and "int (length entry + 1 + length behind) < ULONG_RANGE"
    and "\<not> turn_issn_into_missing_year cfg"
    and "typeEnd ty \<le> p" "lineAt (cstring entry) p ''url =''"
    and "\<not> doiSeen (cstring entry) (typeEnd ty) p"
    and "quiet cfg True False (cstring entry) (typeEnd ty) p"
    and "quiet cfg True False (cstring entry) (Suc p) (length (cstring entry))"
  shows "(\<exists>st'. fixStep cfg (urlException cfg bibType) st = Ok st' \<and> curBibEntry st' = curBibEntry st
            \<and> curBibLength st' = curBibLength st \<and> curBibInd st' = q + 1)
       \<and> fixed cfg behind entry = Some (Ok (cstring entry))"
proof
  have u: "urlException cfg b" for b
    using assms(1) by (simp add: urlException_def)
  show "\<exists>st'. fixStep cfg (urlException cfg bibType) st = Ok st' \<and> curBibEntry st' = curBibEntry st
            \<and> curBibLength st' = curBibLength st \<and> curBibInd st' = q + 1"
  proof (rule fixStep_skip[OF assms(2,3)])
    show "q < length s"
      using assms(4) by (simp add: lineAt_def)
    show "\<not> fixable cfg (urlException cfg bibType) (has_doi st) s q"
      using assms(4) u assms(5) by (rule url_line_not_fixable)
    have "\<not> lineAt s q ''month =''"
      using lineAt_distinct[OF assms(4)] by fastforce
    then show "monthRoom s g q"
      by (simp add: monthRoom_def)
  qed
  show "fixed cfg behind entry = Some (Ok (cstring entry))"
    using assms(6-12,13,14) u assms(15) assms(16,17)[folded eq_True[THEN iffD2, OF u[of "typeRead ty"]]]
    by (rule fixed_url_kept)
qed

theorem url_kept_by_override_witness:
  "turn_every_entry_url_exception default_config
   \<and> (\<exists>st'. fixStep default_config (urlException default_config ''article'')
        \<lparr> curBibEntry = ''@article{k,\<newline>url = {http://x.org/a},\<newline>year = {2016}\<newline>}\<newline>'' @ [NUL],
          curBibInd = 11, curBibLength = 52, bHasYear = False, bHasISSN = False, issnInd = 0,
          has_doi = False \<rparr> = Ok st'
      \<and> curBibEntry st' = ''@article{k,\<newline>url = {http://x.org/a},\<newline>year = {2016}\<newline>}\<newline>'' @ [NUL]
      \<and> curBibLength st' = 52 \<and> curBibInd st' = 12)
   \<and> fixed default_config [] ''@article{k,\<newline>url = {http://x.org/a},\<newline>year = {2016}\<newline>}\<newline>''
     = Some (Ok ''@article{k,\<newline>url = {http://x.org/a},\<newline>year = {2016}\<newline>}\<newline>'')"
proof -
  define X where "X = ''@article{k,\<newline>url = {http://x.org/a},\<newline>year = {2016}\<newline>}\<newline>''"
  define st where "st = \<lparr> curBibEntry = X @ [NUL], curBibInd = 11, curBibLength = 52,
      bHasYear = False, bHasISSN = False, issnInd = 0, has_doi = False \<rparr>"
  have c: "cstring X = X"
    unfolding X_def by code_simp
  have o: "turn_every_entry_url_exception default_config"
    by (simp add: default_config_def)
  have l: "typeEnd ''article'' = 8" "Suc 11 = 12"
    by (simp_all add: typeEnd_def BIB_TYPE_MAX_def)
  have li: "lineAt (cstring X) 11 ''url =''"
    unfolding c by (simp add: X_def lineAt_def)
  have "quietN default_config True False (drop 8 X) 3"
    unfolding X_def by code_simp
  moreover have "8 + 3 \<le> length X"
    by (simp add: X_def)
  ultimately have qb: "quiet default_config True False (cstring X) 8 11"
    using quiet_quietN[of 8 3 X default_config True False] c by simp
  have r: "{8..<11::nat} = {8, 9, 10}"
    by auto
  have nd: "\<not> doiSeen (cstring X) 8 11"
    unfolding c doiSeen_def r by (simp add: X_def lineAt_def)
  have "quietN default_config True False (drop 12 X) 40"
    unfolding X_def by code_simp
  moreover have "12 + 40 \<le> length X" "length X = 12 + 40"
    by (simp_all add: X_def)
  ultimately have qa: "quiet default_config True False (cstring X) 12 (length (cstring X))"
    using quiet_quietN[of 12 40 X default_config True False] c by simp
  have "(\<exists>st'. fixStep default_config (urlException default_config ''article'') st = Ok st'
          \<and> curBibEntry st' = curBibEntry st \<and> curBibLength st' = curBibLength st \<and> curBibInd st' = 11 + 1)
      \<and> fixed default_config [] X = Some (Ok (cstring X))"
  proof (rule url_kept_by_override[where ty = "''article''" and p = 11 and s = X and g = 0 and z = "[]"
        and flds = "''k,\<newline>url = {http://x.org/a},\<newline>year = {2016}''" and t = NL])
    show "buf st X 0 []"
      by (simp add: buf_def st_def X_def ULONG_RANGE_def)
    show "curBibInd st = 11" "\<not> has_doi st"
      by (simp_all add: st_def)
    show "lineAt X 11 ''url =''"
      by (simp add: X_def lineAt_def)
    show "X = CHR ''@'' # ''article'' @ CHR ''{'' # ''k,\<newline>url = {http://x.org/a},\<newline>year = {2016}'' @ [NL, CHR ''}'', NL]"
      by (simp add: X_def)
    show "int (length X + 1 + length ([]::char list)) < ULONG_RANGE"
      by (simp add: X_def ULONG_RANGE_def)
    show "\<not> turn_issn_into_missing_year default_config"
      by (simp add: default_config_def)
    show "typeEnd ''article'' \<le> 11"
      unfolding l by simp
    show "\<not> doiSeen (cstring X) (typeEnd ''article'') 11"
      unfolding l by (rule nd)
    show "quiet default_config True False (cstring X) (typeEnd ''article'') 11"
      unfolding l by (rule qb)
    show "quiet default_config True False (cstring X) (Suc 11) (length (cstring X))"
      unfolding l by (rule qa)
  qed (use o li in simp_all)
  then obtain st' where r: "fixStep default_config (urlException default_config ''article'') st = Ok st'"
      "curBibEntry st' = curBibEntry st" "curBibLength st' = curBibLength st" "curBibInd st' = 11 + 1"
    and f: "fixed default_config [] X = Some (Ok (cstring X))"
    by blast
  have "curBibEntry st' = X @ [NUL]" "curBibLength st' = 52" "curBibInd st' = 12"
    using r(2,3,4) by (simp_all add: st_def)
  then have A: "\<exists>st'. fixStep default_config (urlException default_config ''article'') st = Ok st'
      \<and> curBibEntry st' = X @ [NUL] \<and> curBibLength st' = 52 \<and> curBibInd st' = 12"
    using r(1) by blast
  have "fixed default_config [] X = Some (Ok X)"
    using f unfolding c .
  with o A have "turn_every_entry_url_exception default_config
      \<and> (\<exists>st'. fixStep default_config (urlException default_config ''article'') st = Ok st'
        \<and> curBibEntry st' = X @ [NUL] \<and> curBibLength st' = 52 \<and> curBibInd st' = 12)
      \<and> fixed default_config [] X = Some (Ok X)"
    by blast
  then show ?thesis unfolding X_def st_def .
qed




text \<open>
  C3.  The entry below has none of the defects that the rewriter is to fix: its title
  has one pair of braces.  The \<open>title =\<close> branch makes its two moves without a test of
  the bytes that they overwrite, so the first letter of the title and its closing brace
  are lost, and what the rewriter returns is not the entry.
\<close>

theorem unchanged_fails_single_braced_title:
  "fixed default_config [] ''@article{k,\<newline>title = {Some Title},\<newline>}\<newline>''
     = Some (Ok ''@article{k,\<newline>title = {ome Title,\<newline>}\<newline>'')"
  by code_simp

text \<open>
  C4.  The entry below is fixed already: its title has one pair of braces.  A run of the
  rewriter takes two bytes from the title line, and a run on the output of that run takes
  two more: the second run does not return what the first one returned.
\<close>

theorem rewriting_twice_fails_single_braced_title:
  "fixed default_config [] ''@book{b,\<newline>title = {A Book},\<newline>year = {2001}\<newline>}\<newline>''
     = Some (Ok ''@book{b,\<newline>title = { Book,\<newline>year = {2001}\<newline>}\<newline>'')
   \<and> fixed default_config [] ''@book{b,\<newline>title = { Book,\<newline>year = {2001}\<newline>}\<newline>''
     = Some (Ok ''@book{b,\<newline>title = {Boo,\<newline>year = {2001}\<newline>}\<newline>'')"
  by code_simp

text \<open>
  C5.  Let \<open>old\<close> be a line \<open>title = {{...}}\<close> whose value holds no newline, with a comma,
  one other byte or nothing behind the braces, and \<open>new\<close> the same line with one \<open>{\<close> and
  one \<open>}\<close> less.

  One turn of the loop: whenever the loop stands at the newline before \<open>old\<close> in the
  text of the buffer, the turn replaces \<open>old\<close> by \<open>new\<close>; the text before the line and
  the text behind it stay as they are, the length kept in \<open>curBibLength\<close> goes down by
  two, and the loop goes on behind the newline.

  A whole entry, as the scanner copies it: when nothing else in the entry is fixable
  (before the line, and behind it in the text that the edit leaves) and the year is not
  to be filled in from the ISSN, the rewriter returns the entry with \<open>old\<close> replaced by
  \<open>new\<close>, which is two bytes shorter.
\<close>

theorem title_double_braces:
  assumes "old = ''title = {{'' @ ttl @ ''}}'' @ e" "new = ''title = {'' @ ttl @ ''}'' @ e"
    and "NL \<notin> set (ttl @ e)" "length e \<le> 1"
    and "buf st (before @ NL # old @ NL # after) g z" "curBibInd st = length before"
    and "entry = CHR ''@'' # ty @ CHR ''{'' # pre @ NL # old @ NL # post @ [CHR ''}'', t]"
    and "entry' = CHR ''@'' # ty @ CHR ''{'' # pre @ NL # new @ NL # post @ [CHR ''}'', t]"
    and "t = NL \<or> t = NUL" "post = [] \<or> last post = NL"
    and "CHR ''{'' \<notin> set ty" "NUL \<notin> set ty" "NUL \<notin> set (pre @ ttl @ e @ post)"
    and "int (length entry + 1 + length behind) < ULONG_RANGE"
    and "\<not> turn_issn_into_missing_year cfg"
    and "quiet cfg (urlException cfg (typeRead ty)) False (cstring entry) (typeEnd ty) (length ty + 2 + length pre)"
    and "quiet cfg (urlException cfg (typeRead ty)) (doiSeen (cstring entry) (typeEnd ty) (length ty + 2 + length pre))
           (cstring entry') (length ty + 3 + length pre) (length (cstring entry'))"
  shows "(\<exists>st' z'. fixStep cfg bUrlException st = Ok st'
            \<and> buf st' (before @ NL # new @ NL # after) g z'
            \<and> curBibLength st' + 2 = curBibLength st \<and> curBibInd st' = length before + 1)
       \<and> fixed cfg behind entry = Some (Ok (cstring entry'))
       \<and> length (cstring entry') + 2 = length (cstring entry)"
proof (intro conjI)
  from title_line_parts[OF assms(1,2,4)] obtain mid x y where
    o: "old = ''title ='' @ CHR '' '' # CHR ''{'' # CHR ''{'' # mid @ [x, y]"
    and n: "new = ''title ='' @ CHR '' '' # CHR ''{'' # mid @ [y]"
    and m: "set (mid @ [x, y]) \<subseteq> insert (CHR ''}'') (set (ttl @ e))"
    by blast
  have nl: "NL \<notin> set (CHR '' '' # CHR ''{'' # CHR ''{'' # mid @ [x, y])"
    using m assms(3) by auto
  have ln: "length old = length new + 2"
    unfolding o n by simp
  show "\<exists>st' z'. fixStep cfg bUrlException st = Ok st'
            \<and> buf st' (before @ NL # new @ NL # after) g z'
            \<and> curBibLength st' + 2 = curBibLength st \<and> curBibInd st' = length before + 1"
  proof -
    have b: "buf st (before @ NL # ''title ='' @ CHR '' '' # CHR ''{'' # CHR ''{'' # mid @ x # y # NL # after) g z"
      using assms(5) unfolding o by simp
    from fixStep_title[OF b assms(6) nl, of cfg bUrlException] obtain st' z' where
      s: "fixStep cfg bUrlException st = Ok st'"
         "buf st' (before @ NL # ''title ='' @ CHR '' '' # CHR ''{'' # mid @ y # NL # after) g z'"
         "curBibInd st' = length before + 1"
      by blast
    have b': "buf st' (before @ NL # new @ NL # after) g z'"
      using s(2) unfolding n by simp
    have "curBibLength st = length (before @ NL # old @ NL # after) + g"
      using assms(5) by (simp add: buf_def)
    moreover have "curBibLength st' = length (before @ NL # new @ NL # after) + g"
      using b' by (simp add: buf_def)
    ultimately have "curBibLength st' + 2 = curBibLength st"
      using ln by simp
    with s(1,3) b' show ?thesis by blast
  qed
  show "fixed cfg behind entry = Some (Ok (cstring entry'))"
  proof (rule fixed_title[where ?c8.0 = "CHR '' ''" and ?c9.0 = "CHR ''{''" and ?c10.0 = "CHR ''{''"
        and mid = mid and x = x and y = y and pre = pre and post = post and ty = ty and t = t])
    show "entry = CHR ''@'' # ty @ CHR ''{'' # pre @ NL # ''title ='' @ CHR '' '' # CHR ''{'' # CHR ''{'' # mid @ x # y # NL # post @ [CHR ''}'', t]"
      using assms(7) unfolding o by simp
    show "entry' = CHR ''@'' # ty @ CHR ''{'' # pre @ NL # ''title ='' @ CHR '' '' # CHR ''{'' # mid @ y # NL # post @ [CHR ''}'', t]"
      using assms(8) unfolding n by simp
    show "NUL \<notin> set (pre @ CHR '' '' # CHR ''{'' # CHR ''{'' # mid @ x # y # post)"
      using assms(13) m by auto
    show "NL \<notin> set (CHR '' '' # CHR ''{'' # CHR ''{'' # mid @ [x, y])"
      by (rule nl)
  qed (use assms in simp_all)
  let ?b = "CHR ''@'' # ty @ CHR ''{'' # pre @ NL # old @ NL # post"
  let ?b' = "CHR ''@'' # ty @ CHR ''{'' # pre @ NL # new @ NL # post"
  have "NUL \<notin> set old" "NUL \<notin> set new"
    using assms(13) m unfolding o n by auto
  then have nn: "NUL \<notin> set ?b" "NUL \<notin> set ?b'"
    using assms(12,13) by auto
  have "entry = ?b @ [CHR ''}'', t]"
    using assms(7) by simp
  then have 1: "length (cstring entry) = length ?b + (if t = NL then 2 else 1)"
    using assms(9) nn(1) by (rule cstring_closed)
  have "entry' = ?b' @ [CHR ''}'', t]"
    using assms(8) by simp
  then have 2: "length (cstring entry') = length ?b' + (if t = NL then 2 else 1)"
    using assms(9) nn(2) by (rule cstring_closed)
  show "length (cstring entry') + 2 = length (cstring entry)"
    unfolding 1 2 using ln by simp
qed

theorem title_double_braces_witness:
  "(\<exists>st' z'. fixStep default_config True
        \<lparr> curBibEntry = ''@article{k,\<newline>title = {{Some Title}},\<newline>year = {2016}\<newline>}\<newline>'' @ [NUL],
          curBibInd = 11, curBibLength = 52, bHasYear = False, bHasISSN = False, issnInd = 0,
          has_doi = False \<rparr> = Ok st'
      \<and> buf st' ''@article{k,\<newline>title = {Some Title},\<newline>year = {2016}\<newline>}\<newline>'' 0 z'
      \<and> curBibLength st' = 50 \<and> curBibInd st' = 12)
   \<and> fixed default_config [] ''@article{k,\<newline>title = {{Some Title}},\<newline>year = {2016}\<newline>}\<newline>''
       = Some (Ok ''@article{k,\<newline>title = {Some Title},\<newline>year = {2016}\<newline>}\<newline>'')"
proof -
  define X where "X = ''@article{k,\<newline>title = {{Some Title}},\<newline>year = {2016}\<newline>}\<newline>''"
  define Y where "Y = ''@article{k,\<newline>title = {Some Title},\<newline>year = {2016}\<newline>}\<newline>''"
  define st where "st = \<lparr> curBibEntry = X @ [NUL], curBibInd = 11, curBibLength = 52,
      bHasYear = False, bHasISSN = False, issnInd = 0, has_doi = False \<rparr>"
  have c: "cstring X = X" "cstring Y = Y"
    unfolding X_def Y_def by code_simp+
  have u: "urlException default_config (typeRead ''article'')"
    by (simp add: urlException_def default_config_def)
  have l: "typeEnd ''article'' = 8" "length ''article'' + 2 + length ''k,'' = (11::nat)"
    "length ''article'' + 3 + length ''k,'' = (12::nat)"
    by (simp_all add: typeEnd_def BIB_TYPE_MAX_def)
  have "quietN default_config True False (drop 8 X) 3"
    unfolding X_def by code_simp
  moreover have "8 + 3 \<le> length X"
    by (simp add: X_def)
  ultimately have qb: "quiet default_config (urlException default_config (typeRead ''article'')) False (cstring X) 8 11"
    using quiet_quietN[of 8 3 X default_config True False] u c by simp
  have "quietN default_config True True (drop 12 Y) 38"
    unfolding Y_def by code_simp
  moreover have "12 + 38 \<le> length Y" "length Y = 12 + 38"
    by (simp_all add: Y_def)
  ultimately have "quiet default_config (urlException default_config (typeRead ''article'')) True (cstring Y) 12 (length (cstring Y))"
    using quiet_quietN[of 12 38 Y default_config True True] u c by simp
  then have qa: "quiet default_config (urlException default_config (typeRead ''article'')) (doiSeen (cstring X) 8 11)
      (cstring Y) 12 (length (cstring Y))"
    by (rule quiet_mono)
  have yy: "''@article{k,'' @ NL # (''title = {'' @ ''Some Title'' @ ''}'' @ '','') @ NL # ''year = {2016}\<newline>}\<newline>'' = Y"
    by (simp add: Y_def)
  have "(\<exists>st' z'. fixStep default_config True st = Ok st'
            \<and> buf st' (''@article{k,'' @ NL # (''title = {'' @ ''Some Title'' @ ''}'' @ '','') @ NL # ''year = {2016}\<newline>}\<newline>'') 0 z'
            \<and> curBibLength st' + 2 = curBibLength st \<and> curBibInd st' = length ''@article{k,'' + 1)
      \<and> fixed default_config [] X = Some (Ok (cstring Y))
      \<and> length (cstring Y) + 2 = length (cstring X)"
  proof (rule title_double_braces[where ty = "''article''" and pre = "''k,''" and ttl = "''Some Title''"
        and e = "'',''" and post = "''year = {2016}\<newline>''" and t = NL and z = "[]"
        and old = "''title = {{'' @ ''Some Title'' @ ''}}'' @ '',''"])
    show "buf st (''@article{k,'' @ NL # (''title = {{'' @ ''Some Title'' @ ''}}'' @ '','') @ NL # ''year = {2016}\<newline>}\<newline>'') 0 []"
      by (simp add: buf_def st_def X_def ULONG_RANGE_def)
    show "curBibInd st = length ''@article{k,''"
      by (simp add: st_def)
    show "X = CHR ''@'' # ''article'' @ CHR ''{'' # ''k,'' @ NL # (''title = {{'' @ ''Some Title'' @ ''}}'' @ '','') @ NL # ''year = {2016}\<newline>'' @ [CHR ''}'', NL]"
      by (simp add: X_def)
    show "Y = CHR ''@'' # ''article'' @ CHR ''{'' # ''k,'' @ NL # (''title = {'' @ ''Some Title'' @ ''}'' @ '','') @ NL # ''year = {2016}\<newline>'' @ [CHR ''}'', NL]"
      by (simp add: Y_def)
    show "int (length X + 1 + length ([]::char list)) < ULONG_RANGE"
      by (simp add: X_def ULONG_RANGE_def)
    show "\<not> turn_issn_into_missing_year default_config"
      by (simp add: default_config_def)
    show "quiet default_config (urlException default_config (typeRead ''article'')) False (cstring X)
        (typeEnd ''article'') (length ''article'' + 2 + length ''k,'')"
      unfolding l by (rule qb)
    show "quiet default_config (urlException default_config (typeRead ''article''))
        (doiSeen (cstring X) (typeEnd ''article'') (length ''article'' + 2 + length ''k,''))
        (cstring Y) (length ''article'' + 3 + length ''k,'') (length (cstring Y))"
      unfolding l by (rule qa)
  qed simp_all
  then obtain st' z' where r: "fixStep default_config True st = Ok st'"
      "buf st' (''@article{k,'' @ NL # (''title = {'' @ ''Some Title'' @ ''}'' @ '','') @ NL # ''year = {2016}\<newline>}\<newline>'') 0 z'"
      "curBibLength st' + 2 = curBibLength st" "curBibInd st' = length ''@article{k,'' + 1"
    and f: "fixed default_config [] X = Some (Ok (cstring Y))"
    by blast
  have "buf st' Y 0 z'"
    using r(2) unfolding yy .
  moreover have "curBibLength st' = 50"
    using r(3) by (simp add: st_def)
  moreover have "curBibInd st' = 12"
    using r(4) by simp
  ultimately have "(\<exists>st' z'. fixStep default_config True st = Ok st' \<and> buf st' Y 0 z'
            \<and> curBibLength st' = 50 \<and> curBibInd st' = 12)
      \<and> fixed default_config [] X = Some (Ok Y)"
    using r(1) f c(2) by auto
  then show ?thesis unfolding X_def Y_def st_def .
qed

text \<open>
  C6.  Two entries whose lines do not have the layout that a fix expects.  In the
  first, the month has four letters and the title has no braces at all: the \<open>month =\<close>
  line is skipped, but the \<open>title =\<close> line is edited all the same, and loses its second
  letter and its last one.  In the second, the month is empty and the line is the last
  one of the entry: the byte at offset 13 is the closing brace of the entry, the test
  of the \<open>month =\<close> branch succeeds, and the entry loses that brace.
\<close>

theorem layout_mismatch_edited:
  "fixed default_config [] ''@misc{m,\<newline>title = Plain Title,\<newline>month = {sept},\<newline>}\<newline>''
     = Some (Ok ''@misc{m,\<newline>title = Pain Titl,\<newline>month = {sept},\<newline>}\<newline>'')
   \<and> fixed default_config [] ''@misc{m,\<newline>month = {},\<newline>}\<newline>''
     = Some (Ok ''@misc{m,\<newline>month = },\<newline>\<newline>'')"
  by code_simp

text \<open>
  C7.  Take an entry, as the scanner copies it, with a \<open>url =\<close> line and a \<open>doi =\<close>
  line before it, and a configuration that keeps a URL only when there is no DOI.
  Nothing else in the entry is fixable and the year is not to be filled in from the
  ISSN.  Whatever the type of the entry and the override are, the loop takes the branch
  that removes the line, because the DOI has been met when the line is reached.  The
  move of that branch reads one byte more than the buffer of the entry holds: if a byte
  can be read behind the buffer, the rewriter returns the entry without the \<open>url =\<close>
  line; if none can, the read leaves the buffer.
\<close>

theorem url_removed_after_doi:
  assumes "entry = CHR ''@'' # ty @ CHR ''{'' # pre @ NL # ''url ='' @ u @ NL # post @ [CHR ''}'', t]"
    and "entry' = CHR ''@'' # ty @ CHR ''{'' # pre @ NL # post @ [CHR ''}'', t]"
    and "t = NL \<or> t = NUL" "post = [] \<or> last post = NL"
    and "CHR ''{'' \<notin> set ty" "NUL \<notin> set ty"
    and "NUL \<notin> set (pre @ u @ post)" "NL \<notin> set u"
    and "int (length entry + 1 + length behind) < ULONG_RANGE"
    and "\<not> turn_issn_into_missing_year cfg"
    and "keep_url_only_if_no_doi cfg"
    and "doiSeen (cstring entry) (typeEnd ty) (length ty + 2 + length pre)"
    and "quiet cfg (urlException cfg (typeRead ty)) False (cstring entry) (typeEnd ty) (length ty + 2 + length pre)"
    and "quiet cfg (urlException cfg (typeRead ty)) True
           (cstring entry') (length ty + 2 + length pre) (length (cstring entry'))"
  shows "fixed cfg behind entry = (if behind = [] then Some Fault else Some (Ok (cstring entry')))"
proof -
  have dr: "\<not> urlException cfg (typeRead ty) \<or> (keep_url_only_if_no_doi cfg
      \<and> doiSeen (cstring entry) (typeEnd ty) (length ty + 2 + length pre))"
    using assms(11,12) by simp
  have qa: "quiet cfg (urlException cfg (typeRead ty)) (doiSeen (cstring entry) (typeEnd ty) (length ty + 2 + length pre))
      (cstring entry') (length ty + 2 + length pre) (length (cstring entry'))"
    using assms(14) by (rule quiet_mono)
  show ?thesis
  proof (cases "behind = []")
    case True
    have "fixed cfg behind entry = Some Fault"
      using assms(1,3-9) True dr assms(13) by (rule fixed_url_fault)
    with True show ?thesis by simp
  next
    case False
    have "fixed cfg behind entry = Some (Ok (cstring entry'))"
      using assms(1-9) False assms(10) dr assms(13) qa by (rule fixed_url)
    with False show ?thesis by simp
  qed
qed

theorem url_removed_after_doi_witness:
  "urlException (default_config\<lparr>turn_every_entry_url_exception := False\<rparr>) (typeRead ''misc'')
   \<and> doiSeen (cstring ''@misc{w,\<newline>doi = {10.1/x},\<newline>url = {http://x.org/a},\<newline>year = {2016}\<newline>}\<newline>'') 5 24
   \<and> fixed (default_config\<lparr>turn_every_entry_url_exception := False\<rparr>) ''?''
        ''@misc{w,\<newline>doi = {10.1/x},\<newline>url = {http://x.org/a},\<newline>year = {2016}\<newline>}\<newline>''
     = Some (Ok ''@misc{w,\<newline>doi = {10.1/x},\<newline>year = {2016}\<newline>}\<newline>'')
   \<and> fixed (default_config\<lparr>turn_every_entry_url_exception := False\<rparr>) []
        ''@misc{w,\<newline>doi = {10.1/x},\<newline>url = {http://x.org/a},\<newline>year = {2016}\<newline>}\<newline>''
     = Some Fault"
proof -
  define X where "X = ''@misc{w,\<newline>doi = {10.1/x},\<newline>url = {http://x.org/a},\<newline>year = {2016}\<newline>}\<newline>''"
  define Y where "Y = ''@misc{w,\<newline>doi = {10.1/x},\<newline>year = {2016}\<newline>}\<newline>''"
  define cfg where "cfg = default_config\<lparr>turn_every_entry_url_exception := False\<rparr>"
  have c: "cstring X = X" "cstring Y = Y"
    unfolding X_def Y_def by code_simp+
  have u: "urlException cfg (typeRead ''misc'')"
    by (simp add: urlException_def cfg_def default_config_def typeRead_def BIB_TYPE_MAX_def cstring_def)
  have l: "typeEnd ''misc'' = 5" "length ''misc'' + 2 + length ''w,\<newline>doi = {10.1/x},'' = (24::nat)"
    by (simp_all add: typeEnd_def BIB_TYPE_MAX_def)
  have "8 \<in> {5..<24::nat}" by simp
  moreover have "lineAt (cstring X) 8 ''doi =''"
    unfolding c by (simp add: X_def lineAt_def)
  ultimately have d: "doiSeen (cstring X) 5 24"
    unfolding doiSeen_def by blast
  have "quietN cfg True False (drop 5 X) 19"
    unfolding X_def cfg_def by code_simp
  moreover have "5 + 19 \<le> length X"
    by (simp add: X_def)
  ultimately have qb: "quiet cfg (urlException cfg (typeRead ''misc'')) False (cstring X) 5 24"
    using quiet_quietN[of 5 19 X cfg True False] u c by simp
  have "quietN cfg True True (drop 24 Y) 17"
    unfolding Y_def cfg_def by code_simp
  moreover have "24 + 17 \<le> length Y" "length Y = 24 + 17"
    by (simp_all add: Y_def)
  ultimately have qa: "quiet cfg (urlException cfg (typeRead ''misc'')) True (cstring Y) 24 (length (cstring Y))"
    using quiet_quietN[of 24 17 Y cfg True True] u c by simp
  have g: "fixed cfg bh X = (if bh = [] then Some Fault else Some (Ok (cstring Y)))"
    if bh: "int (length X + 1 + length bh) < ULONG_RANGE" for bh
  proof (rule url_removed_after_doi[where ty = "''misc''" and pre = "''w,\<newline>doi = {10.1/x},''"
        and u = "'' {http://x.org/a},''" and post = "''year = {2016}\<newline>''" and t = NL])
    show "X = CHR ''@'' # ''misc'' @ CHR ''{'' # ''w,\<newline>doi = {10.1/x},'' @ NL # ''url ='' @ '' {http://x.org/a},'' @ NL # ''year = {2016}\<newline>'' @ [CHR ''}'', NL]"
      by (simp add: X_def)
    show "Y = CHR ''@'' # ''misc'' @ CHR ''{'' # ''w,\<newline>doi = {10.1/x},'' @ NL # ''year = {2016}\<newline>'' @ [CHR ''}'', NL]"
      by (simp add: Y_def)
    show "int (length X + 1 + length bh) < ULONG_RANGE"
      by (rule bh)
    show "\<not> turn_issn_into_missing_year cfg" "keep_url_only_if_no_doi cfg"
      by (simp_all add: cfg_def default_config_def)
    show "doiSeen (cstring X) (typeEnd ''misc'') (length ''misc'' + 2 + length ''w,\<newline>doi = {10.1/x},'')"
      unfolding l by (rule d)
    show "quiet cfg (urlException cfg (typeRead ''misc'')) False (cstring X)
        (typeEnd ''misc'') (length ''misc'' + 2 + length ''w,\<newline>doi = {10.1/x},'')"
      unfolding l by (rule qb)
    show "quiet cfg (urlException cfg (typeRead ''misc'')) True (cstring Y)
        (length ''misc'' + 2 + length ''w,\<newline>doi = {10.1/x},'') (length (cstring Y))"
      unfolding l by (rule qa)
  qed simp_all
  have "fixed cfg ''?'' X = Some (Ok Y)"
    using g[of "''?''"] c by (simp add: X_def ULONG_RANGE_def)
  moreover have "fixed cfg [] X = Some Fault"
    using g[of "[]"] by (simp add: X_def ULONG_RANGE_def)
  ultimately have "urlException cfg (typeRead ''misc'') \<and> doiSeen (cstring X) 5 24
      \<and> fixed cfg ''?'' X = Some (Ok Y) \<and> fixed cfg [] X = Some Fault"
    using u d by blast
  then show ?thesis unfolding X_def Y_def cfg_def .
qed

text \<open>
  C7, in the buffer as \<^verbatim>\<open>main\<close> allocates it: \<open>curBibLength + 1\<close> bytes, with nothing
  readable behind them.  The move that removes the \<open>url =\<close> line copies
  \<open>curBibLength - indEOL + 1\<close> bytes from index \<open>indEOL + 1\<close> on, one byte more than the
  buffer holds: the read leaves the buffer.
\<close>

theorem url_removal_reads_past_buffer:
  "fixed (default_config\<lparr>turn_every_entry_url_exception := False\<rparr>) []
        ''@misc{w,\<newline>doi = {10.1/x},\<newline>url = {http://x.org/a},\<newline>year = {2016}\<newline>}\<newline>''
     = Some Fault"
  by code_simp

text \<open>
  C8.  Take an entry, as the scanner copies it, with an \<open>annote =\<close> field that is to be
  dropped (or an \<open>abstract =\<close> field, when the configuration drops it).  The field runs
  from its name through the first \<open>},\<close> that has a newline behind it: \<open>body\<close> is what
  lies between, and it may hold any number of \<open>}\<close> and of newlines.  Nothing else in the
  entry is fixable and the year is not to be filled in from the ISSN.  The loop finds
  the end of the field and removes name, body, \<open>},\<close> and newline in one piece; the
  move that does it reads one byte more than the buffer of the entry holds.  If a byte
  can be read behind the buffer, the rewriter returns the entry without the field and
  with everything else as it was; if none can, the read leaves the buffer.
\<close>

theorem annote_removed_as_unit:
  assumes "entry = CHR ''@'' # ty @ CHR ''{'' # pre @ NL # name @ body @ ''},\<newline>'' @ post @ [CHR ''}'', t]"
    and "entry' = CHR ''@'' # ty @ CHR ''{'' # pre @ NL # post @ [CHR ''}'', t]"
    and "t = NL \<or> t = NUL" "post = [] \<or> last post = NL"
    and "CHR ''{'' \<notin> set ty" "NUL \<notin> set ty"
    and "NUL \<notin> set (pre @ body @ post)"
    and "name = ''annote ='' \<and> \<not> keep_annote cfg \<or> name = ''abstract ='' \<and> \<not> keep_abstract cfg"
    and "\<not> (\<exists>j<length (name @ body). terminatorAt ((name @ body) @ ''},\<newline>'') j)"
    and "int (length entry + 1 + length behind) < ULONG_RANGE"
    and "\<not> turn_issn_into_missing_year cfg"
    and "quiet cfg (urlException cfg (typeRead ty)) False (cstring entry) (typeEnd ty) (length ty + 2 + length pre)"
    and "quiet cfg (urlException cfg (typeRead ty)) (doiSeen (cstring entry) (typeEnd ty) (length ty + 2 + length pre))
           (cstring entry') (length ty + 2 + length pre) (length (cstring entry'))"
  shows "fixed cfg behind entry = (if behind = [] then Some Fault else Some (Ok (cstring entry')))"
proof (cases "behind = []")
  case True
  have "fixed cfg behind entry = Some Fault"
    using assms(1,3-10) True assms(12) by (rule fixed_field_fault)
  with True show ?thesis by simp
next
  case False
  have "fixed cfg behind entry = Some (Ok (cstring entry'))"
    using assms(1-10) False assms(11-13) by (rule fixed_field)
  with False show ?thesis by simp
qed

theorem annote_removed_as_unit_witness:
  "fixed default_config ''?'' ''@article{k,\<newline>annote = {a } b\<newline>c } d},\<newline>year = {2016}\<newline>}\<newline>''
     = Some (Ok ''@article{k,\<newline>year = {2016}\<newline>}\<newline>'')
   \<and> fixed default_config [] ''@article{k,\<newline>annote = {a } b\<newline>c } d},\<newline>year = {2016}\<newline>}\<newline>''
     = Some Fault"
proof -
  define X where "X = ''@article{k,\<newline>annote = {a } b\<newline>c } d},\<newline>year = {2016}\<newline>}\<newline>''"
  define Y where "Y = ''@article{k,\<newline>year = {2016}\<newline>}\<newline>''"
  have c: "cstring X = X" "cstring Y = Y"
    unfolding X_def Y_def by code_simp+
  have u: "urlException default_config (typeRead ''article'')"
    by (simp add: urlException_def default_config_def)
  have l: "typeEnd ''article'' = 8" "length ''article'' + 2 + length ''k,'' = (11::nat)"
    by (simp_all add: typeEnd_def BIB_TYPE_MAX_def)
  have f: "\<not> (\<exists>j<length (''annote ='' @ '' {a } b\<newline>c } d''). terminatorAt ((''annote ='' @ '' {a } b\<newline>c } d'') @ ''},\<newline>'') j)"
    by (simp add: terminatorAt_def Ex_less_Suc eval_nat_numeral)
  have "quietN default_config True False (drop 8 X) 3"
    unfolding X_def by code_simp
  moreover have "8 + 3 \<le> length X"
    by (simp add: X_def)
  ultimately have qb: "quiet default_config (urlException default_config (typeRead ''article'')) False (cstring X) 8 11"
    using quiet_quietN[of 8 3 X default_config True False] u c by simp
  have "quietN default_config True True (drop 11 Y) 17"
    unfolding Y_def by code_simp
  moreover have "11 + 17 \<le> length Y" "length Y = 11 + 17"
    by (simp_all add: Y_def)
  ultimately have "quiet default_config (urlException default_config (typeRead ''article'')) True (cstring Y) 11 (length (cstring Y))"
    using quiet_quietN[of 11 17 Y default_config True True] u c by simp
  then have qa: "quiet default_config (urlException default_config (typeRead ''article'')) (doiSeen (cstring X) 8 11)
      (cstring Y) 11 (length (cstring Y))"
    by (rule quiet_mono)
  have g: "fixed default_config bh X = (if bh = [] then Some Fault else Some (Ok (cstring Y)))"
    if bh: "int (length X + 1 + length bh) < ULONG_RANGE" for bh
  proof (rule annote_removed_as_unit[where ty = "''article''" and pre = "''k,''" and name = "''annote =''"
        and body = "'' {a } b\<newline>c } d''" and post = "''year = {2016}\<newline>''" and t = NL])
    show "X = CHR ''@'' # ''article'' @ CHR ''{'' # ''k,'' @ NL # ''annote ='' @ '' {a } b\<newline>c } d'' @ ''},\<newline>'' @ ''year = {2016}\<newline>'' @ [CHR ''}'', NL]"
      by (simp add: X_def)
    show "Y = CHR ''@'' # ''article'' @ CHR ''{'' # ''k,'' @ NL # ''year = {2016}\<newline>'' @ [CHR ''}'', NL]"
      by (simp add: Y_def)
    show "int (length X + 1 + length bh) < ULONG_RANGE"
      by (rule bh)
    show "\<not> turn_issn_into_missing_year default_config"
      by (simp add: default_config_def)
    show "''annote ='' = ''annote ='' \<and> \<not> keep_annote default_config
        \<or> ''annote ='' = ''abstract ='' \<and> \<not> keep_abstract default_config"
      by (simp add: default_config_def)
    show "\<not> (\<exists>j<length (''annote ='' @ '' {a } b\<newline>c } d''). terminatorAt ((''annote ='' @ '' {a } b\<newline>c } d'') @ ''},\<newline>'') j)"
      by (rule f)
    show "quiet default_config (urlException default_config (typeRead ''article'')) False (cstring X)
        (typeEnd ''article'') (length ''article'' + 2 + length ''k,'')"
      unfolding l by (rule qb)
    show "quiet default_config (urlException default_config (typeRead ''article''))
        (doiSeen (cstring X) (typeEnd ''article'') (length ''article'' + 2 + length ''k,''))
        (cstring Y) (length ''article'' + 2 + length ''k,'') (length (cstring Y))"
      unfolding l by (rule qa)
  qed simp_all
  have "fixed default_config ''?'' X = Some (Ok Y)"
    using g[of "''?''"] c by (simp add: X_def ULONG_RANGE_def)
  moreover have "fixed default_config [] X = Some Fault"
    using g[of "[]"] by (simp add: X_def ULONG_RANGE_def)
  ultimately show ?thesis unfolding X_def Y_def by blast
qed

text \<open>
  C8, in the buffer as \<^verbatim>\<open>main\<close> allocates it, with nothing readable behind its
  \<open>curBibLength + 1\<close> bytes: the move that removes the field copies
  \<open>curBibLength - indEOL + 1\<close> bytes from index \<open>indEOL + 1\<close> on, one byte more than the
  buffer holds, and the read leaves the buffer.
\<close>

theorem annote_removal_reads_past_buffer:
  "fixed default_config [] ''@article{k,\<newline>annote = {a } b\<newline>c } d},\<newline>year = {2016}\<newline>}\<newline>''
     = Some Fault"
  by code_simp

end
